theory Spec2Isabelle
  imports Main "HOL-Library.Word" "HOL-Library.AList" "HOL-Library.Sublist"
begin

section \<open>The backing store\<close>

text \<open>
  The adapter in \<^verbatim>\<open>fast-hfs.js\<close> walks a hierarchical handle tree that the host provides.
  The store is a tree of files and directories. A directory keeps its entries in the
  order the host enumerates them; a name is looked up by first match. A file carries
  its bytes and its modification time (milliseconds since the epoch).
\<close>

type_synonym contents = "8 word list"
type_synonym path = "string list"

datatype node = File contents int | Dir "(string \<times> node) list"

datatype handle_kind = KFile | KDirectory

text \<open>
  A handle is a reference into the store: its kind and the place it refers to. The
  host's handles do not hold data; every operation on a handle reads the store as
  it is at that moment.
\<close>

datatype handle = Handle handle_kind path

fun kind :: "handle \<Rightarrow> handle_kind" where
  "kind (Handle k p) = k"

fun hpath :: "handle \<Rightarrow> path" where
  "hpath (Handle k p) = p"

text \<open>The \<^verbatim>\<open>name\<close> attribute of a handle; the root's name is the empty string.\<close>

fun handle_name :: "handle \<Rightarrow> string" where
  "handle_name (Handle k p) = (if p = [] then [] else last p)"

definition workspaceId :: handle where
  "workspaceId = Handle KDirectory []"

text \<open>
  Errors of the adapter (\<^verbatim>\<open>NotFoundError\<close>, \<^verbatim>\<open>DirectoryError\<close>, \<^verbatim>\<open>NotEmptyError\<close> of
  \<^verbatim>\<open>@humanfs/core\<close>) and faults of the host, which carry the \<^verbatim>\<open>name\<close> of the exception
  the host raised. The message texts are left out.
\<close>

datatype error = NotFoundError | DirectoryError | NotEmptyError | HostFault string

text \<open>
  What the environment decides: \<open>open_fault\<close> is the exception (if any) the store
  raises when asked to open the entry at a place, \<open>move_fault\<close> the exception (if
  any) its native \<^verbatim>\<open>move\<close> raises for a source and a destination, \<open>dir_move\<close> whether
  directory handles have a native \<^verbatim>\<open>move\<close>, and \<open>now\<close> the reading of the clock.
\<close>

record host =
  open_fault :: "path \<Rightarrow> string option"
  move_fault :: "path \<Rightarrow> path \<Rightarrow> string option"
  dir_move :: bool
  now :: int

fun lookup :: "node \<Rightarrow> path \<Rightarrow> node option" where
  "lookup t [] = Some t"
| "lookup (File b m) (x # xs) = None"
| "lookup (Dir cs) (x # xs) = (case map_of cs x of None \<Rightarrow> None | Some c \<Rightarrow> lookup c xs)"

fun modify :: "path \<Rightarrow> (node \<Rightarrow> node) \<Rightarrow> node \<Rightarrow> node" where
  "modify [] f t = f t"
| "modify (x # xs) f (File b m) = File b m"
| "modify (x # xs) f (Dir cs) = Dir (AList.map_entry x (\<lambda>c. modify xs f c) cs)"

fun put_child :: "string \<Rightarrow> node \<Rightarrow> node \<Rightarrow> node" where
  "put_child x c (Dir cs) = Dir (AList.update x c cs)"
| "put_child x c (File b m) = File b m"

fun remove_child :: "string \<Rightarrow> node \<Rightarrow> node" where
  "remove_child x (Dir cs) = Dir (AList.delete x cs)"
| "remove_child x (File b m) = File b m"

fun is_file :: "node option \<Rightarrow> bool" where
  "is_file (Some (File b m)) = True"
| "is_file _ = False"

fun is_dir :: "node option \<Rightarrow> bool" where
  "is_dir (Some (Dir cs)) = True"
| "is_dir _ = False"

subsection \<open>The host's primitives\<close>

text \<open>
  \<^verbatim>\<open>handle.getDirectoryHandle(name, { create })\<close>: the child directory of that name.
  It fails with \<^verbatim>\<open>TypeMismatchError\<close> when the name is a file, with \<^verbatim>\<open>NotFoundError\<close>
  when the name is missing and \<open>create\<close> is unset, with \<^verbatim>\<open>TypeError\<close> on the empty
  name or when the handle is not a directory handle (it has no such method), and with
  the environment's fault when there is one.
\<close>

definition getDirectoryHandle ::
    "host \<Rightarrow> node \<Rightarrow> handle \<Rightarrow> string \<Rightarrow> bool \<Rightarrow> (string + handle) \<times> node" where
  "getDirectoryHandle h t dh name create =
     (if kind dh \<noteq> KDirectory \<or> name = [] then (Inl ''TypeError'', t)
      else case open_fault h (hpath dh @ [name]) of
        Some f \<Rightarrow> (Inl f, t)
      | None \<Rightarrow>
         (case lookup t (hpath dh) of
            Some (Dir cs) \<Rightarrow>
              (case map_of cs name of
                 Some (Dir ds) \<Rightarrow> (Inr (Handle KDirectory (hpath dh @ [name])), t)
               | Some (File b m) \<Rightarrow> (Inl ''TypeMismatchError'', t)
               | None \<Rightarrow>
                   if create
                   then (Inr (Handle KDirectory (hpath dh @ [name])),
                         modify (hpath dh) (put_child name (Dir [])) t)
                   else (Inl ''NotFoundError'', t))
          | _ \<Rightarrow> (Inl ''NotFoundError'', t)))"

text \<open>
  \<^verbatim>\<open>handle.getFileHandle(name, { create })\<close>: the child file of that name; a file it
  creates is empty and stamped with the clock.
\<close>

definition getFileHandle ::
    "host \<Rightarrow> node \<Rightarrow> handle \<Rightarrow> string \<Rightarrow> bool \<Rightarrow> (string + handle) \<times> node" where
  "getFileHandle h t dh name create =
     (if kind dh \<noteq> KDirectory \<or> name = [] then (Inl ''TypeError'', t)
      else case open_fault h (hpath dh @ [name]) of
        Some f \<Rightarrow> (Inl f, t)
      | None \<Rightarrow>
         (case lookup t (hpath dh) of
            Some (Dir cs) \<Rightarrow>
              (case map_of cs name of
                 Some (File b m) \<Rightarrow> (Inr (Handle KFile (hpath dh @ [name])), t)
               | Some (Dir ds) \<Rightarrow> (Inl ''TypeMismatchError'', t)
               | None \<Rightarrow>
                   if create
                   then (Inr (Handle KFile (hpath dh @ [name])),
                         modify (hpath dh) (put_child name (File [] (now h))) t)
                   else (Inl ''NotFoundError'', t))
          | _ \<Rightarrow> (Inl ''NotFoundError'', t)))"

text \<open>\<^verbatim>\<open>fileHandle.getFile()\<close>: the bytes and the modification time of the file.\<close>

definition getFile :: "node \<Rightarrow> handle \<Rightarrow> string + (contents \<times> int)" where
  "getFile t dh =
     (if kind dh \<noteq> KFile then Inl ''TypeError''
      else case lookup t (hpath dh) of
        Some (File b m) \<Rightarrow> Inr (b, m)
      | _ \<Rightarrow> Inl ''NotFoundError'')"

text \<open>
  \<^verbatim>\<open>createWritable()\<close>, \<^verbatim>\<open>write(contents)\<close>, \<^verbatim>\<open>close()\<close> on a handle: the file's bytes
  are replaced as a whole. A directory handle has no \<^verbatim>\<open>createWritable\<close>, so the call
  is a \<^verbatim>\<open>TypeError\<close>.
\<close>

definition write_sink :: "host \<Rightarrow> node \<Rightarrow> handle \<Rightarrow> contents \<Rightarrow> (error + unit) \<times> node" where
  "write_sink h t dh b =
     (if kind dh \<noteq> KFile then (Inl (HostFault ''TypeError''), t)
      else case lookup t (hpath dh) of
        Some (File b0 m) \<Rightarrow> (Inr (), modify (hpath dh) (\<lambda>c. File b (now h)) t)
      | _ \<Rightarrow> (Inl (HostFault ''NotFoundError''), t))"

text \<open>\<^verbatim>\<open>directoryHandle.values()\<close>: the entries of the directory, as found when asked.\<close>

definition values_of :: "node \<Rightarrow> handle \<Rightarrow> string + (string \<times> handle_kind) list" where
  "values_of t dh =
     (if kind dh \<noteq> KDirectory then Inl ''TypeError''
      else case lookup t (hpath dh) of
        Some (Dir cs) \<Rightarrow>
          Inr (map (\<lambda>(x, c). (x, case c of File b m \<Rightarrow> KFile | Dir ds \<Rightarrow> KDirectory)) cs)
      | _ \<Rightarrow> Inl ''NotFoundError'')"

text \<open>
  \<^verbatim>\<open>parentHandle.removeEntry(name)\<close> without the recursive flag: the entry of that
  name is removed; a missing name or a directory that still has entries is a fault.
\<close>

definition removeEntry :: "node \<Rightarrow> handle \<Rightarrow> string \<Rightarrow> (string + unit) \<times> node" where
  "removeEntry t dh name =
     (if kind dh \<noteq> KDirectory \<or> name = [] then (Inl ''TypeError'', t)
      else case lookup t (hpath dh @ [name]) of
        None \<Rightarrow> (Inl ''NotFoundError'', t)
      | Some (Dir (c # cs)) \<Rightarrow> (Inl ''InvalidModificationError'', t)
      | Some c \<Rightarrow> (Inr (), modify (hpath dh) (remove_child name) t))"


text \<open>
  The host's native \<^verbatim>\<open>handle.move(destinationParent, destinationName)\<close>: the entry
  (a file, or a directory with all below it) leaves its place and becomes the entry
  \<open>destinationName\<close> of the destination directory, replacing a file of that name.
  It is a fault to move onto a directory, to move a directory onto a file or into
  itself, and to pass no destination directory.
\<close>

definition move_native ::
    "host \<Rightarrow> node \<Rightarrow> handle \<Rightarrow> handle option \<Rightarrow> string \<Rightarrow> (string + unit) \<times> node" where
  "move_native h t sh dparent dname =
     (case dparent of
        None \<Rightarrow> (Inl ''TypeError'', t)
      | Some dp \<Rightarrow>
          if kind dp \<noteq> KDirectory \<or> dname = [] then (Inl ''TypeError'', t)
          else (case move_fault h (hpath sh) (hpath dp @ [dname]) of
            Some f \<Rightarrow> (Inl f, t)
          | None \<Rightarrow>
             (case lookup t (hpath sh) of
                None \<Rightarrow> (Inl ''NotFoundError'', t)
              | Some n \<Rightarrow>
                  if hpath sh = [] \<or> \<not> is_dir (lookup t (hpath dp)) then (Inl ''NotFoundError'', t)
                  else if hpath sh = hpath dp @ [dname] then (Inr (), t)
                  else if prefix (hpath sh) (hpath dp)
                       \<or> is_dir (lookup t (hpath dp @ [dname]))
                       \<or> (is_file (lookup t (hpath dp @ [dname])) \<and> is_dir (Some n))
                    then (Inl ''InvalidModificationError'', t)
                  else (Inr (),
                        modify (hpath dp) (put_child dname n)
                          (modify (butlast (hpath sh)) (remove_child (last (hpath sh))) t)))))"

section \<open>The adapter\<close>

text \<open>
  A path argument is the sequence of segments \<^verbatim>\<open>Path.from\<close> makes of a canonical
  slash-delimited string; the string \<^verbatim>\<open>"root"\<close> is the one-segment path \<open>[''root'']\<close>.
  The class \<^verbatim>\<open>Path\<close> of \<^verbatim>\<open>@humanfs/core\<close> is not part of these sources: \<^verbatim>\<open>push\<close> is
  appending a segment, \<^verbatim>\<open>pop\<close> removes the last one, \<^verbatim>\<open>name\<close> is the last one.
\<close>

record options =
  returnParent :: bool
  create :: bool
  kind_wanted :: "handle_kind option"

definition defaults :: options where
  "defaults = \<lparr>returnParent = False, create = False, kind_wanted = None\<rparr>"

text \<open>
  The \<^verbatim>\<open>while (handle && name)\<close> loop of \<^verbatim>\<open>getDetails\<close>: the list is the current
  \<^verbatim>\<open>name\<close> followed by the remaining \<^verbatim>\<open>steps\<close>. Every \<^verbatim>\<open>catch\<close> of the loop is a bare
  one, so whatever the host raises becomes \<^verbatim>\<open>undefined\<close>.
\<close>

fun walk ::
    "host \<Rightarrow> node \<Rightarrow> handle \<Rightarrow> string list \<Rightarrow> bool \<Rightarrow> handle_kind option
      \<Rightarrow> handle option \<times> node" where
  "walk h t dh [] cr kd = (None, t)"
| "walk h t dh (name # steps) cr kd =
     (if name = [] then (None, t)
      else if steps \<noteq> [] then
        (case getDirectoryHandle h t dh name cr of
           (Inl f, t') \<Rightarrow> (None, t')
         | (Inr dh', t') \<Rightarrow> walk h t' dh' steps cr kd)
      else
        (case kd of
           None \<Rightarrow>
             (case getDirectoryHandle h t dh name cr of
                (Inr dh', t') \<Rightarrow> (Some dh', t')
              | (Inl f, t') \<Rightarrow>
                  (case getFileHandle h t' dh name cr of
                     (Inr fh, t'') \<Rightarrow> (Some fh, t'')
                   | (Inl f', t'') \<Rightarrow> (None, t'')))
         | Some KDirectory \<Rightarrow>
             (case getDirectoryHandle h t dh name cr of
                (Inr dh', t') \<Rightarrow> (Some dh', t')
              | (Inl f, t') \<Rightarrow> (None, t'))
         | Some KFile \<Rightarrow>
             (case getFileHandle h t dh name cr of
                (Inr fh, t') \<Rightarrow> (Some fh, t')
              | (Inl f, t') \<Rightarrow> (None, t'))))"

definition getDetails :: "host \<Rightarrow> node \<Rightarrow> path \<Rightarrow> options \<Rightarrow> handle option \<times> node" where
  "getDetails h t opaqueId opts =
     (if opaqueId = [''root''] then (Some workspaceId, t)
      else walk h t workspaceId
             (if returnParent opts then butlast opaqueId else opaqueId)
             (create opts) (kind_wanted opts))"

definition readFile :: "host \<Rightarrow> node \<Rightarrow> path \<Rightarrow> error + contents option" where
  "readFile h t filePath =
     (case fst (getDetails h t filePath defaults) of
        None \<Rightarrow> Inr None
      | Some dh \<Rightarrow>
          if kind dh \<noteq> KFile then Inr None
          else (case getFile t dh of
                  Inl f \<Rightarrow> Inl (HostFault f)
                | Inr (b, m) \<Rightarrow> Inr (Some b)))"

definition bytes :: "host \<Rightarrow> node \<Rightarrow> path \<Rightarrow> error + contents option" where
  "bytes h t filePath = readFile h t filePath"

definition path_name :: "path \<Rightarrow> string" where
  "path_name p = (if p = [] then [] else last p)"

definition write_hfs :: "host \<Rightarrow> node \<Rightarrow> path \<Rightarrow> contents \<Rightarrow> (error + unit) \<times> node" where
  "write_hfs h t filePath cont =
     (case fst (getDetails h t filePath defaults) of
        Some dh \<Rightarrow> write_sink h t dh cont
      | None \<Rightarrow>
          (case getDetails h t filePath
                  \<lparr>returnParent = True, create = True, kind_wanted = Some KDirectory\<rparr> of
             (ph, t1) \<Rightarrow>
               (case getFileHandle h t1 (case ph of Some p \<Rightarrow> p | None \<Rightarrow> workspaceId)
                       (path_name filePath) True of
                  (Inl f, t2) \<Rightarrow> (Inl (HostFault f), t2)
                | (Inr fh, t2) \<Rightarrow> write_sink h t2 fh cont)))"

definition append_hfs :: "host \<Rightarrow> node \<Rightarrow> path \<Rightarrow> contents \<Rightarrow> (error + unit) \<times> node" where
  "append_hfs h t filePath cont =
     (case fst (getDetails h t filePath defaults) of
        None \<Rightarrow> write_hfs h t filePath cont
      | Some dh \<Rightarrow>
          if kind dh \<noteq> KFile then (Inl DirectoryError, t)
          else (case getFile t dh of
                  Inl f \<Rightarrow> (Inl (HostFault f), t)
                | Inr (existing, m) \<Rightarrow> write_hfs h t filePath (existing @ cont)))"

definition isFile :: "host \<Rightarrow> node \<Rightarrow> path \<Rightarrow> bool" where
  "isFile h t filePath =
     (case fst (getDetails h t filePath defaults) of
        None \<Rightarrow> False
      | Some dh \<Rightarrow> kind dh = KFile)"

definition isDirectory :: "host \<Rightarrow> node \<Rightarrow> path \<Rightarrow> bool" where
  "isDirectory h t dirPath =
     (case fst (getDetails h t dirPath defaults) of
        None \<Rightarrow> False
      | Some dh \<Rightarrow> kind dh = KDirectory)"

fun createDirectory_loop :: "host \<Rightarrow> node \<Rightarrow> handle \<Rightarrow> string list \<Rightarrow> (error + unit) \<times> node" where
  "createDirectory_loop h t dh [] = (Inr (), t)"
| "createDirectory_loop h t dh (name # rest) =
     (case getDirectoryHandle h t dh name True of
        (Inl f, t') \<Rightarrow> (Inl (HostFault f), t')
      | (Inr dh', t') \<Rightarrow> createDirectory_loop h t' dh' rest)"

definition createDirectory :: "host \<Rightarrow> node \<Rightarrow> path \<Rightarrow> (error + unit) \<times> node" where
  "createDirectory h t dirPath = createDirectory_loop h t workspaceId dirPath"

text \<open>
  \<^verbatim>\<open>delete\<close> calls \<^verbatim>\<open>parentHandle.removeEntry(handle.name)\<close> without awaiting it: what
  the removal does to the store happens, but a fault of the removal never reaches
  the caller.
\<close>

definition delete :: "host \<Rightarrow> node \<Rightarrow> path \<Rightarrow> (error + unit) \<times> node" where
  "delete h t opaqueId =
     (let handle = fst (getDetails h t opaqueId defaults);
          parentHandle =
            (case fst (getDetails h t opaqueId
                         \<lparr>returnParent = True, create = False, kind_wanted = None\<rparr>) of
               Some p \<Rightarrow> p
             | None \<Rightarrow> workspaceId)
      in case handle of
           None \<Rightarrow> (Inl NotFoundError, t)
         | Some dh \<Rightarrow>
             (case (if kind dh = KDirectory then values_of t dh else Inr []) of
                Inl f \<Rightarrow> (Inl (HostFault f), t)
              | Inr (e # es) \<Rightarrow> (Inl NotEmptyError, t)
              | Inr [] \<Rightarrow> (Inr (), snd (removeEntry t parentHandle (handle_name dh)))))"

record entry =
  entry_name :: string
  entry_isDirectory :: bool
  entry_isFile :: bool
  entry_isSymlink :: bool

text \<open>
  \<^verbatim>\<open>list\<close> is an async generator over \<^verbatim>\<open>handle.values()\<close>; the entries are those the
  directory has when the enumeration starts.
\<close>

definition list :: "host \<Rightarrow> node \<Rightarrow> path \<Rightarrow> error + entry list" where
  "list h t dirPath =
     (case fst (getDetails h t dirPath defaults) of
        None \<Rightarrow> Inr []
      | Some dh \<Rightarrow>
          (case values_of t dh of
             Inl f \<Rightarrow> Inl (HostFault f)
           | Inr es \<Rightarrow>
               Inr (map (\<lambda>(x, k). \<lparr>entry_name = x, entry_isDirectory = (k = KDirectory),
                                   entry_isFile = (k = KFile), entry_isSymlink = False\<rparr>) es)))"




definition copy :: "host \<Rightarrow> node \<Rightarrow> path \<Rightarrow> path \<Rightarrow> (error + unit) \<times> node" where
  "copy h t source destination =
     (case fst (getDetails h t source defaults) of
        None \<Rightarrow> (Inl NotFoundError, t)
      | Some fromHandle \<Rightarrow>
          if kind fromHandle \<noteq> KFile then (Inl DirectoryError, t)
          else if isDirectory h t destination then (Inl DirectoryError, t)
          else
            (case getDetails h t destination
                    \<lparr>returnParent = False, create = True, kind_wanted = Some KFile\<rparr> of
               (toHandle, t1) \<Rightarrow>
                 (case getFile t1 fromHandle of
                    Inl f \<Rightarrow> (Inl (HostFault f), t1)
                  | Inr (b, m) \<Rightarrow>
                      (case toHandle of
                         None \<Rightarrow> (Inl (HostFault ''TypeError''), t1)
                       | Some th \<Rightarrow> write_sink h t1 th b))))"

fun for_each ::
    "(entry \<Rightarrow> node \<Rightarrow> ((error + unit) \<times> node) option) \<Rightarrow> entry list \<Rightarrow> node
      \<Rightarrow> ((error + unit) \<times> node) option" where
  "for_each body [] t = Some (Inr (), t)"
| "for_each body (e # es) t =
     (case body e t of
        None \<Rightarrow> None
      | Some (Inl er, t') \<Rightarrow> Some (Inl er, t')
      | Some (Inr u, t') \<Rightarrow> for_each body es t')"

fun copyAll :: "nat \<Rightarrow> host \<Rightarrow> node \<Rightarrow> path \<Rightarrow> path \<Rightarrow> ((error + unit) \<times> node) option" where
  "copyAll 0 h t source destination = None"
| "copyAll (Suc n) h t source destination =
     (if isFile h t source then Some (copy h t source destination)
      else if \<not> isDirectory h t source then Some (Inl NotFoundError, t)
      else
        (case createDirectory h t destination of
           (Inl er, t1) \<Rightarrow> Some (Inl er, t1)
         | (Inr u, t1) \<Rightarrow>
             (case list h t1 source of
                Inl er \<Rightarrow> Some (Inl er, t1)
              | Inr es \<Rightarrow>
                  for_each
                    (\<lambda>e t'. if entry_isDirectory e
                       then copyAll n h t' (source @ [entry_name e]) (destination @ [entry_name e])
                       else Some (copy h t' (source @ [entry_name e]) (destination @ [entry_name e])))
                    es t1)))"

text \<open>
  \<^verbatim>\<open>move\<close>: the handler \<^verbatim>\<open>handleChromeError\<close> takes the copy-and-delete way when the
  name of the fault is \<^verbatim>\<open>NotAllowedError\<close> and throws the fault again otherwise.
\<close>

definition move :: "host \<Rightarrow> node \<Rightarrow> path \<Rightarrow> path \<Rightarrow> (error + unit) \<times> node" where
  "move h t source destination =
     (case fst (getDetails h t source defaults) of
        None \<Rightarrow> (Inl NotFoundError, t)
      | Some fileHandle \<Rightarrow>
          if kind fileHandle \<noteq> KFile then (Inl DirectoryError, t)
          else
            (case getDetails h t (butlast destination)
                    \<lparr>returnParent = False, create = True, kind_wanted = Some KDirectory\<rparr> of
               (destinationParent, t1) \<Rightarrow>
                 (case move_native h t1 fileHandle destinationParent (path_name destination) of
                    (Inr u, t2) \<Rightarrow> (Inr (), t2)
                  | (Inl ex, t2) \<Rightarrow>
                      if ex = ''NotAllowedError'' then
                        (case copy h t2 source destination of
                           (Inl er, t3) \<Rightarrow> (Inl er, t3)
                         | (Inr u, t3) \<Rightarrow> delete h t3 source)
                      else (Inl (HostFault ex), t2))))"


lemma lookup_append:
  "lookup t (p @ q) = (case lookup t p of None \<Rightarrow> None | Some n \<Rightarrow> lookup n q)"
proof (induction p arbitrary: t)
  case Nil
  show ?case by simp
next
  case (Cons x p)
  show ?case by (cases t) (simp_all add: Cons.IH split: option.splits)
qed

lemma map_of_map_entry_eq:
  "map_of (AList.map_entry x f cs) y =
     (if y = x then map_option f (map_of cs x) else map_of cs y)"
  by (simp add: map_of_map_entry split: option.splits)

lemma lookup_modify_below:
  "lookup (modify p f t) (p @ r) = (case lookup t p of None \<Rightarrow> None | Some n \<Rightarrow> lookup (f n) r)"
proof (induction p arbitrary: t)
  case Nil
  show ?case by simp
next
  case (Cons x p)
  show ?case
    by (cases t) (simp_all add: Cons.IH map_of_map_entry_eq split: option.splits)
qed

lemma lookup_modify_apart:
  "\<not> prefix p q \<Longrightarrow> \<not> prefix q p \<Longrightarrow> lookup (modify p f t) q = lookup t q"
proof (induction p arbitrary: t q)
  case Nil
  then show ?case by simp
next
  case (Cons x p)
  then obtain y q' where q: "q = y # q'" by (cases q) auto
  show ?case
  proof (cases t)
    case (File b m)
    then show ?thesis by (simp add: q)
  next
    case (Dir cs)
    show ?thesis
    proof (cases "y = x")
      case True
      with Cons.prems q have "\<not> prefix p q'" "\<not> prefix q' p" by auto
      then show ?thesis
        using Cons.IH[of q'] by (simp add: q Dir True map_of_map_entry_eq split: option.splits)
    next
      case False
      then show ?thesis by (simp add: q Dir map_of_map_entry_eq)
    qed
  qed
qed

lemma lookup_modify_above:
  "lookup (modify (q @ r) f t) q = map_option (modify r f) (lookup t q)"
proof (induction q arbitrary: t)
  case Nil
  show ?case by simp
next
  case (Cons x q)
  show ?case
    by (cases t) (simp_all add: Cons.IH map_of_map_entry_eq split: option.splits)
qed

lemma is_dir_modify_keep:
  assumes "\<And>n. is_dir (Some n) \<Longrightarrow> is_dir (Some (f n))"
  shows "is_dir (Some t) \<Longrightarrow> is_dir (Some (modify p f t))"
  using assms by (cases p; cases t) auto

lemma is_dir_lookup_modify:
  assumes keep: "\<And>n. is_dir (Some n) \<Longrightarrow> is_dir (Some (f n))"
    and "is_dir (lookup t r)" "\<not> (prefix p r \<and> p \<noteq> r)"
  shows "is_dir (lookup (modify p f t) r)"
proof (cases "prefix r p")
  case True
  then obtain s where p: "p = r @ s" by (auto simp: prefix_def)
  from assms(2) obtain n where n: "lookup t r = Some n" "is_dir (Some n)"
    by (cases "lookup t r") auto
  have "is_dir (Some (modify s f n))" using is_dir_modify_keep[OF keep n(2)] by simp
  then show ?thesis by (simp add: p lookup_modify_above n)
next
  case False
  with assms(3) have "\<not> prefix p r" by auto
  with False assms(2) show ?thesis by (simp add: lookup_modify_apart)
qed

definition quiet :: "host \<Rightarrow> bool" where
  "quiet h \<longleftrightarrow> (\<forall>p. open_fault h p = None)"

text \<open>
  \<open>extends d t t'\<close>: the store \<open>t'\<close> is \<open>t\<close> with entries added on the way to \<open>d\<close>
  and nothing else: every path that is not a prefix of \<open>d\<close> resolves as before, files
  keep their data and directories stay directories.
\<close>

definition extends :: "path \<Rightarrow> node \<Rightarrow> node \<Rightarrow> bool" where
  "extends d t t' \<longleftrightarrow>
     (\<forall>r. \<not> prefix r d \<longrightarrow> lookup t' r = lookup t r) \<and>
     (\<forall>r b m. lookup t r = Some (File b m) \<longrightarrow> lookup t' r = Some (File b m)) \<and>
     (\<forall>r. is_dir (lookup t r) \<longrightarrow> is_dir (lookup t' r))"

lemma extends_refl: "extends d t t"
  by (simp add: extends_def)

lemma extends_longer: "extends d t t' \<Longrightarrow> prefix d d' \<Longrightarrow> extends d' t t'"
  unfolding extends_def by (meson prefix_order.trans)

lemma extends_trans: "extends d t t' \<Longrightarrow> extends d t' t'' \<Longrightarrow> extends d t t''"
  unfolding extends_def by simp

lemma lookup_through_file:
  "lookup t d = Some (File b m) \<Longrightarrow> s \<noteq> [] \<Longrightarrow> lookup t (d @ s) = None"
  by (cases s) (simp_all add: lookup_append)

lemma lookup_through_none:
  "lookup t d = None \<Longrightarrow> lookup t (d @ s) = None"
  by (simp add: lookup_append)

lemma lookup_child:
  "lookup t d = Some (Dir cs) \<Longrightarrow> lookup t (d @ [x]) = map_of cs x"
  by (simp add: lookup_append split: option.splits)

lemma is_dir_put_child: "is_dir (Some n) \<Longrightarrow> is_dir (Some (put_child x c n))"
  by (cases n) auto


text \<open>Adding an entry under a name that the directory does not have.\<close>

lemma extends_put_child:
  assumes d: "lookup t d = Some (Dir cs)" and x: "map_of cs x = None"
    and c: "c = Dir [] \<or> c = File [] m0"
  shows "extends (d @ [x]) t (modify d (put_child x c) t)"
proof -
  have A: "lookup (modify d (put_child x c) t) (d @ s) = lookup (Dir (AList.update x c cs)) s" for s
    by (simp add: lookup_modify_below d)
  have B: "lookup t (d @ s) = lookup (Dir cs) s" for s
    by (simp add: lookup_append d)
  have C: "lookup (Dir (AList.update x c cs)) (y # s') = lookup (Dir cs) (y # s')"
    if "y \<noteq> x \<or> s' \<noteq> []" for y s'
  proof (cases "y = x")
    case True
    with that obtain z s'' where "s' = z # s''" by (cases s') auto
    then show ?thesis using c x by (auto simp: True update_conv')
  next
    case False
    then show ?thesis by (simp add: update_conv')
  qed
  have D: "lookup (modify d (put_child x c) t) r = lookup t r" if "\<not> prefix r (d @ [x])" for r
  proof (cases "prefix d r")
    case True
    then obtain s where r: "r = d @ s" by (auto simp: prefix_def)
    with that obtain y s' where s: "s = y # s'" by (cases s) auto
    from that r s have "y \<noteq> x \<or> s' \<noteq> []" by auto
    then show ?thesis unfolding r s A B by (rule C)
  next
    case False
    moreover have "\<not> prefix r d" using that by (auto simp: prefix_def)
    ultimately show ?thesis by (simp add: lookup_modify_apart)
  qed
  have E: "lookup t (d @ [x]) = None" unfolding B using x by simp
  show ?thesis
    unfolding extends_def
  proof (intro conjI allI impI)
    fix r
    assume "\<not> prefix r (d @ [x])"
    then show "lookup (modify d (put_child x c) t) r = lookup t r" by (rule D)
  next
    fix r b m
    assume f: "lookup t r = Some (File b m)"
    have "\<not> prefix r (d @ [x])"
    proof
      assume "prefix r (d @ [x])"
      then have "r = d @ [x] \<or> prefix r d" by simp
      then show False
      proof
        assume "r = d @ [x]"
        with f E show False by simp
      next
        assume "prefix r d"
        then obtain s2 where "d = r @ s2" by (auto simp: prefix_def)
        with f d show False by (cases s2) (auto simp: lookup_append)
      qed
    qed
    with f show "lookup (modify d (put_child x c) t) r = Some (File b m)" by (simp add: D)
  next
    fix r
    assume dr: "is_dir (lookup t r)"
    show "is_dir (lookup (modify d (put_child x c) t) r)"
    proof (cases "prefix r (d @ [x])")
      case False
      with dr show ?thesis by (simp add: D)
    next
      case True
      have "r \<noteq> d @ [x]" using dr E by auto
      with True have "prefix r d" by simp
      then have "\<not> (prefix d r \<and> d \<noteq> r)" by (auto simp: prefix_order.antisym)
      then show ?thesis using dr is_dir_put_child by (intro is_dir_lookup_modify) auto
    qed
  qed
qed

lemma getDirectoryHandle_extends:
  assumes "getDirectoryHandle h t dh name cr = (res, t')"
  shows "extends (hpath dh @ [name]) t t'"
  using assms
  by (auto simp: getDirectoryHandle_def extends_refl lookup_child
      intro!: extends_put_child split: if_splits option.splits node.splits)

lemma getFileHandle_extends:
  assumes "getFileHandle h t dh name cr = (res, t')"
  shows "extends (hpath dh @ [name]) t t'"
  using assms
  by (auto simp: getFileHandle_def extends_refl lookup_child
      intro!: extends_put_child split: if_splits option.splits node.splits)

lemma getDirectoryHandle_Inr:
  assumes "getDirectoryHandle h t dh name cr = (Inr dh', t')"
  shows "dh' = Handle KDirectory (hpath dh @ [name]) \<and> is_dir (lookup t' (hpath dh @ [name]))
         \<and> name \<noteq> [] \<and> is_dir (lookup t (hpath dh))"
  using assms
  by (auto simp: getDirectoryHandle_def lookup_child lookup_modify_below update_conv'
      split: if_splits option.splits node.splits)

lemma getFileHandle_Inr:
  assumes "getFileHandle h t dh name cr = (Inr fh, t')"
  shows "fh = Handle KFile (hpath dh @ [name]) \<and> is_file (lookup t' (hpath dh @ [name]))
         \<and> name \<noteq> [] \<and> is_dir (lookup t (hpath dh))"
  using assms
  by (auto simp: getFileHandle_def lookup_child lookup_modify_below update_conv'
      split: if_splits option.splits node.splits)

lemma getDirectoryHandle_nocreate: "snd (getDirectoryHandle h t dh name False) = t"
  by (auto simp: getDirectoryHandle_def split: option.splits node.splits)

lemma getFileHandle_nocreate: "snd (getFileHandle h t dh name False) = t"
  by (auto simp: getFileHandle_def split: option.splits node.splits)

lemma walk_extends:
  "walk h t dh steps cr kd = (res, t') \<Longrightarrow> extends (hpath dh @ steps) t t'"
proof (induction steps arbitrary: t dh)
  case Nil
  then show ?case by (simp add: extends_refl)
next
  case (Cons name steps)
  show ?case
  proof (cases "name = []")
    case True
    with Cons.prems show ?thesis by (simp add: extends_refl)
  next
    case nm: False
    show ?thesis
    proof (cases "steps = []")
      case False
      obtain r1 t1 where g: "getDirectoryHandle h t dh name cr = (r1, t1)" by force
      have e1: "extends (hpath dh @ name # steps) t t1"
        using getDirectoryHandle_extends[OF g] by (rule extends_longer) simp
      show ?thesis
      proof (cases r1)
        case (Inl f)
        with Cons.prems nm False g have "t' = t1" by simp
        with e1 show ?thesis by simp
      next
        case (Inr dh')
        with Cons.prems nm False g have w: "walk h t1 dh' steps cr kd = (res, t')" by simp
        from g Inr have "hpath dh' = hpath dh @ [name]"
          using getDirectoryHandle_Inr by fastforce
        with Cons.IH[OF w] have "extends (hpath dh @ name # steps) t1 t'" by simp
        with e1 show ?thesis by (rule extends_trans)
      qed
    next
      case True
      obtain r1 t1 where g: "getDirectoryHandle h t dh name cr = (r1, t1)" by force
      obtain r2 t2 where f: "getFileHandle h t dh name cr = (r2, t2)" by force
      obtain r3 t3 where f1: "getFileHandle h t1 dh name cr = (r3, t3)" by force
      note e = getDirectoryHandle_extends[OF g] getFileHandle_extends[OF f]
        getFileHandle_extends[OF f1]
      have "t' = t1 \<or> t' = t2 \<or> t' = t3"
        using Cons.prems nm True g f f1
        by (auto split: option.splits handle_kind.splits sum.splits)
      with e show ?thesis using True extends_trans by auto
    qed
  qed
qed

lemma walk_nocreate: "snd (walk h t dh steps False kd) = t"
proof (induction steps arbitrary: dh)
  case Nil
  show ?case by simp
next
  case (Cons name steps)
  have g: "getDirectoryHandle h t dh name False = (fst (getDirectoryHandle h t dh name False), t)"
    using getDirectoryHandle_nocreate[of h t dh name] by (metis prod.collapse)
  have f: "getFileHandle h t dh name False = (fst (getFileHandle h t dh name False), t)"
    using getFileHandle_nocreate[of h t dh name] by (metis prod.collapse)
  show ?case
    by (cases "fst (getDirectoryHandle h t dh name False)";
        cases "fst (getFileHandle h t dh name False)")
      (use g f Cons.IH in \<open>auto split: option.splits handle_kind.splits\<close>)
qed

lemma walk_Some:
  "walk h t dh steps cr kd = (Some dh', t') \<Longrightarrow>
     hpath dh' = hpath dh @ steps \<and> steps \<noteq> [] \<and> [] \<notin> set steps \<and>
     (kind dh' = KFile \<longrightarrow> is_file (lookup t' (hpath dh'))) \<and>
     (kind dh' = KDirectory \<longrightarrow> is_dir (lookup t' (hpath dh'))) \<and>
     (\<forall>k. kd = Some k \<longrightarrow> kind dh' = k)"
proof (induction steps arbitrary: t dh)
  case Nil
  then show ?case by simp
next
  case (Cons name steps)
  from Cons.prems have nm: "name \<noteq> []" by (auto split: if_splits)
  show ?case
  proof (cases "steps = []")
    case False
    obtain r1 t1 where g: "getDirectoryHandle h t dh name cr = (r1, t1)" by force
    with Cons.prems nm False obtain d1 where r1: "r1 = Inr d1"
      and w: "walk h t1 d1 steps cr kd = (Some dh', t')"
      by (cases r1) auto
    from g r1 have "hpath d1 = hpath dh @ [name]" using getDirectoryHandle_Inr by fastforce
    with Cons.IH[OF w] nm show ?thesis by auto
  next
    case True
    obtain r1 t1 where g: "getDirectoryHandle h t dh name cr = (r1, t1)" by force
    obtain r2 t2 where f: "getFileHandle h t dh name cr = (r2, t2)" by force
    obtain r3 t3 where f1: "getFileHandle h t1 dh name cr = (r3, t3)" by force
    have "(r1 = Inr dh' \<and> t' = t1 \<and> (kd = None \<or> kd = Some KDirectory)) \<or> (r2 = Inr dh' \<and> t' = t2 \<and> kd = Some KFile)
          \<or> (r3 = Inr dh' \<and> t' = t3 \<and> kd = None)"
      using Cons.prems nm True g f f1
      by (auto split: option.splits handle_kind.splits sum.splits)
    then show ?thesis
      using getDirectoryHandle_Inr[of h t dh name cr dh' t1]
        getFileHandle_Inr[of h t dh name cr dh' t2]
        getFileHandle_Inr[of h t1 dh name cr dh' t3] g f f1 True nm
      by (elim disjE) auto
  qed
qed

definition handle_at :: "node \<Rightarrow> path \<Rightarrow> handle option" where
  "handle_at t p =
     (case lookup t p of
        None \<Rightarrow> None
      | Some (File b m) \<Rightarrow> Some (Handle KFile p)
      | Some (Dir cs) \<Rightarrow> Some (Handle KDirectory p))"

text \<open>What a path resolves to when nothing is created: a path with no segment or with an
  empty segment resolves to nothing.\<close>

definition resolve :: "node \<Rightarrow> path \<Rightarrow> node option" where
  "resolve t p = (if p = [] \<or> [] \<in> set p then None else lookup t p)"

lemma is_dirE: "is_dir x \<Longrightarrow> (\<And>cs. x = Some (Dir cs) \<Longrightarrow> P) \<Longrightarrow> P"
  by (cases x rule: is_dir.cases) auto

lemma is_fileE: "is_file x \<Longrightarrow> (\<And>b m. x = Some (File b m) \<Longrightarrow> P) \<Longrightarrow> P"
  by (cases x rule: is_file.cases) auto

lemma getDirectoryHandle_quiet:
  assumes "quiet h" "is_dir (lookup t d)" "name \<noteq> []"
  shows "getDirectoryHandle h t (Handle KDirectory d) name cr =
     (case lookup t (d @ [name]) of
        Some (Dir ds) \<Rightarrow> (Inr (Handle KDirectory (d @ [name])), t)
      | Some (File b m) \<Rightarrow> (Inl ''TypeMismatchError'', t)
      | None \<Rightarrow> if cr then (Inr (Handle KDirectory (d @ [name])),
                            modify d (put_child name (Dir [])) t)
                else (Inl ''NotFoundError'', t))"
proof -
  from assms(2) obtain cs where cs: "lookup t d = Some (Dir cs)" by (rule is_dirE)
  show ?thesis using assms(1,3)
    by (auto simp add: getDirectoryHandle_def quiet_def cs lookup_child[OF cs]
        split: option.splits node.splits)
qed

lemma getFileHandle_quiet:
  assumes "quiet h" "is_dir (lookup t d)" "name \<noteq> []"
  shows "getFileHandle h t (Handle KDirectory d) name cr =
     (case lookup t (d @ [name]) of
        Some (File b m) \<Rightarrow> (Inr (Handle KFile (d @ [name])), t)
      | Some (Dir ds) \<Rightarrow> (Inl ''TypeMismatchError'', t)
      | None \<Rightarrow> if cr then (Inr (Handle KFile (d @ [name])),
                            modify d (put_child name (File [] (now h))) t)
                else (Inl ''NotFoundError'', t))"
proof -
  from assms(2) obtain cs where cs: "lookup t d = Some (Dir cs)" by (rule is_dirE)
  show ?thesis using assms(1,3)
    by (auto simp add: getFileHandle_def quiet_def cs lookup_child[OF cs]
        split: option.splits node.splits)
qed

lemma lookup_through_nondir:
  "\<not> is_dir (lookup t d) \<Longrightarrow> s \<noteq> [] \<Longrightarrow> lookup t (d @ s) = None"
  by (cases "lookup t d" rule: is_dir.cases; cases s) (simp_all add: lookup_append)

lemma getDirectoryHandle_nondir:
  "\<not> is_dir (lookup t (hpath dh)) \<Longrightarrow> \<exists>f. getDirectoryHandle h t dh name cr = (Inl f, t)"
  by (cases "lookup t (hpath dh)" rule: is_dir.cases)
    (auto simp: getDirectoryHandle_def split: option.splits)

lemma getFileHandle_nondir:
  "\<not> is_dir (lookup t (hpath dh)) \<Longrightarrow> \<exists>f. getFileHandle h t dh name cr = (Inl f, t)"
  by (cases "lookup t (hpath dh)" rule: is_dir.cases)
    (auto simp: getFileHandle_def split: option.splits)

lemma walk_quiet:
  assumes "quiet h"
  shows "walk h t (Handle KDirectory d) steps False None =
       (if steps = [] \<or> [] \<in> set steps then None else handle_at t (d @ steps), t)"
proof (induction steps arbitrary: d)
  case Nil
  show ?case by simp
next
  case (Cons name steps)
  show ?case
  proof (cases "name = []")
    case True
    then show ?thesis by simp
  next
    case nm: False
    show ?thesis
    proof (cases "is_dir (lookup t d)")
      case False
      then have "lookup t (d @ name # s) = None" for s by (simp add: lookup_through_nondir)
      moreover obtain f1 f2 where "getDirectoryHandle h t (Handle KDirectory d) name False = (Inl f1, t)"
        "getFileHandle h t (Handle KDirectory d) name False = (Inl f2, t)"
        using getDirectoryHandle_nondir[of t "Handle KDirectory d" h name False]
          getFileHandle_nondir[of t "Handle KDirectory d" h name False] False by auto
      ultimately show ?thesis using nm by (simp add: handle_at_def)
    next
      case True
      note g = getDirectoryHandle_quiet[OF assms True nm, of False]
      note f = getFileHandle_quiet[OF assms True nm, of False]
      show ?thesis
      proof (cases "lookup t (d @ [name])")
        case None
        then have "lookup t (d @ name # steps) = None"
          using lookup_through_none[of t "d @ [name]" steps] by simp
        then show ?thesis using nm None g f by (simp add: handle_at_def)
      next
        case (Some c)
        show ?thesis
        proof (cases c)
          case (File b m)
          then have "steps \<noteq> [] \<Longrightarrow> lookup t (d @ name # steps) = None"
            using lookup_through_file[of t "d @ [name]" b m steps] Some by simp
          then show ?thesis using nm Some File g f by (simp add: handle_at_def)
        next
          case (Dir ds)
          from Cons.IH[of "d @ [name]"] show ?thesis using nm Some Dir g by (simp add: handle_at_def)
        qed
      qed
    qed
  qed
qed

lemma getDetails_quiet:
  assumes "quiet h" "p \<noteq> [''root'']"
  shows "getDetails h t p defaults =
     (if p = [] \<or> [] \<in> set p then None else handle_at t p, t)"
  using assms(2) walk_quiet[OF assms(1), of t "[]" p]
  by (simp add: getDetails_def defaults_def workspaceId_def)

lemma getDetails_nocreate: "\<not> create opts \<Longrightarrow> snd (getDetails h t p opts) = t"
  using walk_nocreate by (simp add: getDetails_def)

lemma isFile_quiet:
  "quiet h \<Longrightarrow> p \<noteq> [''root''] \<Longrightarrow> isFile h t p = is_file (resolve t p)"
  by (auto simp: isFile_def getDetails_quiet handle_at_def resolve_def
      split: option.splits node.splits)

lemma isDirectory_quiet:
  "quiet h \<Longrightarrow> p \<noteq> [''root''] \<Longrightarrow> isDirectory h t p = is_dir (resolve t p)"
  by (auto simp: isDirectory_def getDetails_quiet handle_at_def resolve_def
      split: option.splits node.splits)

lemma bytes_quiet:
  "quiet h \<Longrightarrow> p \<noteq> [''root''] \<Longrightarrow>
     bytes h t p = Inr (case resolve t p of Some (File b m) \<Rightarrow> Some b | _ \<Rightarrow> None)"
  by (auto simp: bytes_def readFile_def getDetails_quiet handle_at_def resolve_def getFile_def
      split: option.splits node.splits)

lemma bytes_root: "bytes h t [''root''] = Inr None"
  by (simp add: bytes_def readFile_def getDetails_def workspaceId_def)

lemma list_quiet:
  "quiet h \<Longrightarrow> p \<noteq> [''root''] \<Longrightarrow>
     list h t p =
       (case resolve t p of
          Some (Dir cs) \<Rightarrow>
            Inr (map (\<lambda>(x, c). \<lparr>entry_name = x, entry_isDirectory = is_dir (Some c),
                                  entry_isFile = is_file (Some c), entry_isSymlink = False\<rparr>) cs)
        | Some (File b m) \<Rightarrow> Inl (HostFault ''TypeError'')
        | None \<Rightarrow> Inr [])"
  by (auto simp: list_def getDetails_quiet handle_at_def resolve_def values_of_def
      split: option.splits node.splits)

lemma resolve_parent:
  assumes "resolve t p = Some n"
  shows "p \<noteq> [] \<and> [] \<notin> set p \<and> last p \<noteq> [] \<and> is_dir (lookup t (butlast p))
         \<and> lookup t (butlast p @ [last p]) = Some n"
proof -
  from assms have p: "p \<noteq> []" "[] \<notin> set p" "lookup t p = Some n"
    by (auto simp: resolve_def split: if_splits)
  then have bl: "butlast p @ [last p] = p" by simp
  have "is_dir (lookup t (butlast p))"
    using lookup_through_nondir[of t "butlast p" "[last p]"] p(3) bl by fastforce
  moreover have "last p \<noteq> []" using p(1,2) last_in_set by metis
  ultimately show ?thesis using p bl by simp
qed

lemma delete_quiet:
  assumes q: "quiet h" and nr: "p \<noteq> [''root'']"
  shows "delete h t p =
     (case resolve t p of
        None \<Rightarrow> (Inl NotFoundError, t)
      | Some (Dir (c # cs)) \<Rightarrow> (Inl NotEmptyError, t)
      | Some n \<Rightarrow> (Inr (), modify (butlast p) (remove_child (last p)) t))"
proof (cases "resolve t p")
  case None
  then have "fst (getDetails h t p defaults) = None"
    by (auto simp: getDetails_quiet[OF q nr] resolve_def handle_at_def split: if_splits)
  then show ?thesis using None by (simp add: delete_def Let_def)
next
  case (Some n)
  note rp = resolve_parent[OF Some]
  have hd: "fst (getDetails h t p defaults) = handle_at t p"
    using rp by (simp add: getDetails_quiet[OF q nr])
  have lk: "lookup t p = Some n" using Some by (simp add: resolve_def split: if_splits)
  have par: "(case fst (getDetails h t p \<lparr>returnParent = True, create = False, kind_wanted = None\<rparr>) of
               Some ph \<Rightarrow> ph | None \<Rightarrow> workspaceId) = Handle KDirectory (butlast p)"
  proof (cases "butlast p = []")
    case True
    then show ?thesis using nr by (simp add: getDetails_def workspaceId_def)
  next
    case False
    have "[] \<notin> set (butlast p)" using rp by (meson in_set_butlastD)
    moreover obtain ds where "lookup t (butlast p) = Some (Dir ds)"
      using rp by (auto elim: is_dirE)
    ultimately show ?thesis using False nr walk_quiet[OF q, of t "[]" "butlast p"]
      by (simp add: getDetails_def workspaceId_def handle_at_def)
  qed
  show ?thesis
  proof (cases n)
    case (File b m)
    then show ?thesis using Some lk rp par hd
      by (simp add: delete_def Let_def handle_at_def removeEntry_def)
  next
    case (Dir cs)
    then show ?thesis using Some lk rp par hd
      by (cases cs) (auto simp add: delete_def Let_def handle_at_def removeEntry_def values_of_def)
  qed
qed

lemma lookup_removed:
  assumes d: "is_dir (lookup t d)"
  shows "lookup (modify d (remove_child x) t) (d @ x # s) = None"
proof -
  from d obtain cs where "lookup t d = Some (Dir cs)" by (rule is_dirE)
  then show ?thesis by (simp add: lookup_modify_below delete_conv')
qed

lemma lookup_remove_other:
  assumes "\<not> prefix (d @ [x]) r" "\<not> prefix r d"
  shows "lookup (modify d (remove_child x) t) r = lookup t r"
proof (cases "prefix d r")
  case False
  with assms show ?thesis by (simp add: lookup_modify_apart)
next
  case True
  then obtain s where r: "r = d @ s" by (auto simp: prefix_def)
  with assms obtain y s' where s: "s = y # s'" "y \<noteq> x" by (cases s) auto
  show ?thesis
  proof (cases "lookup t d")
    case None
    then show ?thesis by (simp add: r lookup_modify_below lookup_append[of t d])
  next
    case (Some n)
    then show ?thesis using s
      by (cases n) (simp_all add: r lookup_modify_below lookup_append[of t d] delete_conv')
  qed
qed

definition quiet_host :: host where
  "quiet_host = \<lparr>open_fault = (\<lambda>p. None), move_fault = (\<lambda>s d. None), dir_move = False, now = 1000\<rparr>"

definition sample :: node where
  "sample = Dir [(''a'', Dir [(''f'', File [1, 2] 5), (''d'', Dir [(''g'', File [3] 7)])]),
                 (''x'', File [9] 3), (''e'', Dir [])]"

lemma quiet_quiet_host: "quiet quiet_host"
  by (simp add: quiet_def quiet_host_def)

section \<open>Deleting one entry\<close>



section \<open>Operations on the wrong kind\<close>

lemma append_directory:
  "isDirectory h t p \<Longrightarrow> append_hfs h t p b = (Inl DirectoryError, t)"
  by (auto simp: isDirectory_def append_hfs_def split: option.splits)

lemma move_directory:
  "isDirectory h t s \<Longrightarrow> move h t s d = (Inl DirectoryError, t)"
  by (auto simp: isDirectory_def move_def split: option.splits)

lemma copy_source_directory:
  "isDirectory h t s \<Longrightarrow> copy h t s d = (Inl DirectoryError, t)"
  by (auto simp: isDirectory_def copy_def split: option.splits)

lemma copy_destination_directory:
  "isFile h t s \<Longrightarrow> isDirectory h t d \<Longrightarrow> copy h t s d = (Inl DirectoryError, t)"
  by (auto simp: isFile_def copy_def split: option.splits)

lemma write_directory:
  "isDirectory h t p \<Longrightarrow> write_hfs h t p b = (Inl (HostFault ''TypeError''), t)"
  by (auto simp: isDirectory_def write_hfs_def write_sink_def split: option.splits)

text \<open>
  Claim C7 says that every operation on a handle of the wrong kind raises
  \<^verbatim>\<open>DirectoryError\<close>. \<^verbatim>\<open>append\<close>, \<^verbatim>\<open>move\<close> and \<^verbatim>\<open>copy\<close> test the kind and do so (the
  four lemmas above). \<^verbatim>\<open>write\<close> has no such test: on a path that is a directory it
  goes on to \<^verbatim>\<open>handle.createWritable()\<close>, which a directory handle does not have, and
  what reaches the caller is the host's \<^verbatim>\<open>TypeError\<close>. Here \<open>e\<close> is an empty directory
  of the sample store.
\<close>

theorem write_to_directory_raises_TypeError:
  "isDirectory quiet_host sample [''e''] \<and>
   write_hfs quiet_host sample [''e''] [1] = (Inl (HostFault ''TypeError''), sample) \<and>
   append_hfs quiet_host sample [''e''] [1] = (Inl DirectoryError, sample)"
  by code_simp

section \<open>Writing and reading back\<close>








section \<open>Appending\<close>




section \<open>Resolution never raises\<close>












text \<open>
  \<^verbatim>\<open>delete\<close> does not await \<^verbatim>\<open>removeEntry\<close>: a fault of the removal is lost as well. On an
  empty store, \<^verbatim>\<open>delete("root")\<close> asks the root to remove the entry of the root's own
  (empty) name, which the host refuses, and returns normally.
\<close>

lemma delete_drops_fault_of_removeEntry:
  "removeEntry (Dir []) workspaceId (handle_name workspaceId) = (Inl ''TypeError'', Dir []) \<and>
   delete quiet_host (Dir []) [''root''] = (Inr (), Dir [])"
  by code_simp

section \<open>Copying one file\<close>

lemma is_dir_modify_deeper: "s \<noteq> [] \<Longrightarrow> is_dir (Some n) \<Longrightarrow> is_dir (Some (modify s f n))"
  by (cases s; cases n) auto

text \<open>What a successful \<^verbatim>\<open>copy\<close> has done.\<close>

lemma copy_success:
  assumes q: "quiet h" and c: "copy h t S D = (Inr (), t')"
  shows "\<exists>b m. S \<noteq> [''root''] \<and> resolve t S = Some (File b m) \<and>
           D \<noteq> [''root''] \<and> D \<noteq> [] \<and> [] \<notin> set D \<and>
           lookup t' D = Some (File b (now h)) \<and>
           (\<forall>r. \<not> prefix r D \<longrightarrow> lookup t' r = lookup t r) \<and>
           (\<forall>r. is_dir (lookup t r) \<longrightarrow> is_dir (lookup t' r)) \<and>
           (S = D \<or> (\<not> prefix S D \<and> \<not> prefix D S))"
proof -
  have nrS: "S \<noteq> [''root'']"
    using c by (auto simp: copy_def getDetails_def workspaceId_def)
  from c obtain fh where fh: "fst (getDetails h t S defaults) = Some fh" "kind fh = KFile"
    by (auto simp: copy_def split: option.splits if_splits)
  then obtain b m where S: "resolve t S = Some (File b m)" "fh = Handle KFile S"
    by (auto simp: getDetails_quiet[OF q nrS] handle_at_def resolve_def
        split: if_splits option.splits node.splits)
  then have lS: "lookup t S = Some (File b m)" by (simp add: resolve_def split: if_splits)
  from c fh have ndD: "\<not> isDirectory h t D"
    by (auto simp: copy_def split: if_splits)
  then have nrD: "D \<noteq> [''root'']"
    by (auto simp: isDirectory_def getDetails_def workspaceId_def)
  let ?o = "\<lparr>returnParent = False, create = True, kind_wanted = Some KFile\<rparr>"
  obtain th t1 where g: "getDetails h t D ?o = (th, t1)" by force
  then have w: "walk h t (Handle KDirectory []) D True (Some KFile) = (th, t1)"
    using nrD by (simp add: getDetails_def workspaceId_def)
  have e: "extends D t t1" using walk_extends[OF w] by simp
  then have lS1: "lookup t1 S = Some (File b m)" using lS by (simp add: extends_def)
  from c fh g S lS1 obtain dh where th: "th = Some dh" and ws: "write_sink h t1 dh b = (Inr (), t')"
    by (auto simp: copy_def ndD getFile_def split: option.splits)
  from walk_Some[OF w[unfolded th]] have dh: "dh = Handle KFile D" "D \<noteq> []" "[] \<notin> set D"
    "is_file (lookup t1 D)"
    by (cases dh; auto)+
  then have t': "t' = modify D (\<lambda>c. File b (now h)) t1"
    using ws by (auto simp: write_sink_def split: option.splits node.splits)
  from dh(4) obtain b1 m1 where lD1: "lookup t1 D = Some (File b1 m1)" by (rule is_fileE)
  have lD: "lookup t' D = Some (File b (now h))"
    using lookup_modify_below[of D _ t1 "[]"] lD1 by (simp add: t')
  have fr1: "lookup t' r = lookup t1 r" if "\<not> prefix r D" for r
  proof (cases "prefix D r")
    case True
    then obtain s where r: "r = D @ s" by (auto simp: prefix_def)
    with that have "s \<noteq> []" by auto
    then show ?thesis
      using lookup_through_file[OF lD1, of s] lookup_through_file[OF lD, of s] by (simp add: r)
  next
    case False
    with that show ?thesis by (simp add: t' lookup_modify_apart)
  qed
  have fr: "\<forall>r. \<not> prefix r D \<longrightarrow> lookup t' r = lookup t r"
    using fr1 e by (simp add: extends_def)
  have dirs: "is_dir (lookup t' r)" if "is_dir (lookup t r)" for r
  proof -
    have d1: "is_dir (lookup t1 r)" using that e by (simp add: extends_def)
    show ?thesis
    proof (cases "prefix r D")
      case False
      with fr1 d1 show ?thesis by simp
    next
      case True
      then obtain s where s: "D = r @ s" by (auto simp: prefix_def)
      have "s \<noteq> []" using d1 lD1 s by auto
      then show ?thesis using d1 lookup_modify_above[of r s _ t1]
        by (auto simp: t' s is_dir_modify_deeper elim!: is_dirE)
    qed
  qed
  have rel: "S = D \<or> (\<not> prefix S D \<and> \<not> prefix D S)"
  proof (rule disjCI)
    assume "\<not> (\<not> prefix S D \<and> \<not> prefix D S)"
    then consider "prefix S D" | "prefix D S" by auto
    then show "S = D"
    proof cases
      case 1
      then obtain s where "D = S @ s" by (auto simp: prefix_def)
      then show ?thesis using lookup_through_file[OF lS1, of s] lD1 by (cases "s = []") auto
    next
      case 2
      then obtain s where s: "S = D @ s" by (auto simp: prefix_def)
      show ?thesis
      proof (rule ccontr)
        assume "S \<noteq> D"
        then have "s \<noteq> []" using s by auto
        then have "is_dir (lookup t D)"
          using lookup_through_nondir[of t D s] lS s by auto
        moreover have "[] \<notin> set D" "D \<noteq> []" using dh by auto
        ultimately show False using ndD by (simp add: isDirectory_quiet[OF q nrD] resolve_def)
      qed
    qed
  qed
  show ?thesis using nrS S(1) nrD dh(2,3) lD fr dirs rel by blast
qed

section \<open>Moving one file\<close>

lemma move_native_fault_state:
  "move_native h t sh dp name = (Inl ex, t') \<Longrightarrow> t' = t"
  by (auto simp: move_native_def split: option.splits if_splits)

definition chrome_host :: host where
  "chrome_host = \<lparr>open_fault = (\<lambda>p. None), move_fault = (\<lambda>s d. Some ''NotAllowedError''),
                   dir_move = False, now = 1000\<rparr>"

lemma quiet_chrome_host: "quiet chrome_host"
  by (simp add: quiet_def chrome_host_def)

text \<open>
  Claim C8, as amended. Let \<^verbatim>\<open>move(source, destination)\<close> be called on a file, and let
  the store's native move raise a fault named \<open>ex\<close> (after the destination's parent
  directory has been resolved or created). If \<open>ex\<close> is not \<^verbatim>\<open>NotAllowedError\<close>, the fault
  reaches the caller as it is. If it is, \<^verbatim>\<open>move\<close> is \<^verbatim>\<open>copy\<close> followed by \<^verbatim>\<open>delete\<close> of the
  source; and when that completes and source and destination are different paths, the
  destination holds the bytes the source had and the source is gone.
\<close>

theorem move_fallback:
  assumes "quiet h" and "isFile h t source"
    and "getDetails h t (butlast destination)
           \<lparr>returnParent = False, create = True, kind_wanted = Some KDirectory\<rparr> = (dp, t1)"
    and "move_native h t1 (Handle KFile source) dp (path_name destination) = (Inl ex, t2)"
  shows "(ex \<noteq> ''NotAllowedError'' \<longrightarrow> move h t source destination = (Inl (HostFault ex), t1)) \<and>
         (ex = ''NotAllowedError'' \<longrightarrow>
            move h t source destination =
              (case copy h t1 source destination of
                 (Inl er, t3) \<Rightarrow> (Inl er, t3)
               | (Inr u, t3) \<Rightarrow> delete h t3 source)) \<and>
         (\<forall>t'. ex = ''NotAllowedError'' \<and> source \<noteq> destination \<and>
               move h t source destination = (Inr (), t') \<longrightarrow>
               (\<exists>b. bytes h t source = Inr (Some b) \<and> bytes h t' destination = Inr (Some b)) \<and>
               \<not> isFile h t' source \<and> \<not> isDirectory h t' source)"
proof -
  note q = assms(1)
  have nr: "source \<noteq> [''root'']"
    using assms(2) by (auto simp: isFile_def getDetails_def workspaceId_def)
  from assms(2) obtain b m where S: "resolve t source = Some (File b m)"
    by (cases "resolve t source" rule: is_file.cases) (auto simp: isFile_quiet[OF q nr])
  then have lS: "lookup t source = Some (File b m)" and vS: "source \<noteq> []" "[] \<notin> set source"
    by (auto simp: resolve_def split: if_splits)
  have fh: "fst (getDetails h t source defaults) = Some (Handle KFile source)"
    using lS vS by (simp add: getDetails_quiet[OF q nr] handle_at_def)
  have t2: "t2 = t1" using move_native_fault_state[OF assms(4)] .
  have mv: "move h t source destination =
      (if ex = ''NotAllowedError'' then
         (case copy h t1 source destination of
            (Inl er, t3) \<Rightarrow> (Inl er, t3)
          | (Inr u, t3) \<Rightarrow> delete h t3 source)
       else (Inl (HostFault ex), t1))"
    using fh assms(3,4) t2 by (simp add: move_def)
  have e: "extends (butlast destination) t t1"
  proof (cases "butlast destination = [''root'']")
    case True
    with assms(3) show ?thesis by (simp add: getDetails_def extends_refl)
  next
    case False
    with assms(3) show ?thesis using walk_extends[of h t workspaceId "butlast destination"]
      by (simp add: getDetails_def workspaceId_def)
  qed
  then have lS1: "lookup t1 source = Some (File b m)" using lS by (simp add: extends_def)
  have main: "(\<exists>b. bytes h t source = Inr (Some b) \<and> bytes h t' destination = Inr (Some b)) \<and>
              \<not> isFile h t' source \<and> \<not> isDirectory h t' source"
    if ex: "ex = ''NotAllowedError''" and ne: "source \<noteq> destination"
      and ok: "move h t source destination = (Inr (), t')" for t'
  proof -
    obtain r3 t3 where c: "copy h t1 source destination = (r3, t3)" by force
    with ok mv ex have r3: "r3 = Inr ()" and d: "delete h t3 source = (Inr (), t')"
      by (cases r3; auto)+
    from copy_success[OF q c[unfolded r3]] ne obtain b' m' where
      cs: "resolve t1 source = Some (File b' m')" "destination \<noteq> [''root'']" "destination \<noteq> []"
        "[] \<notin> set destination" "lookup t3 destination = Some (File b' (now h))"
        "\<forall>r. \<not> prefix r destination \<longrightarrow> lookup t3 r = lookup t1 r"
        "\<not> prefix source destination" "\<not> prefix destination source"
      by auto
    from cs(1) lS1 vS have b': "b' = b" by (simp add: resolve_def)
    have lS3: "resolve t3 source = Some (File b m)" using cs(6,7) lS1 vS by (simp add: resolve_def)
    have t': "t' = modify (butlast source) (remove_child (last source)) t3"
      using d by (simp add: delete_quiet[OF q nr] lS3)
    note rp = resolve_parent[OF lS3]
    then have bl: "butlast source @ [last source] = source" by simp
    have gone: "lookup t' source = None"
      using lookup_removed[of t3 "butlast source" "last source" "[]"] rp bl by (simp add: t')
    have "\<not> prefix destination (butlast source)"
      using cs(8) by (metis bl prefix_order.trans prefixI)
    then have "lookup t' destination = lookup t3 destination"
      unfolding t' using cs(7) bl by (intro lookup_remove_other) simp_all
    then have "bytes h t' destination = Inr (Some b)"
      using cs by (simp add: bytes_quiet[OF q] resolve_def b')
    moreover have "bytes h t source = Inr (Some b)" by (simp add: bytes_quiet[OF q nr] S)
    ultimately show ?thesis using gone
      by (simp add: isFile_quiet[OF q nr] isDirectory_quiet[OF q nr] resolve_def)
  qed
  show ?thesis using mv main by auto
qed

theorem move_fallback_witness:
  "quiet chrome_host \<and> isFile chrome_host sample [''x''] \<and>
   getDetails chrome_host sample (butlast [''e'', ''y''])
     \<lparr>returnParent = False, create = True, kind_wanted = Some KDirectory\<rparr>
     = (Some (Handle KDirectory [''e'']), sample) \<and>
   move_native chrome_host sample (Handle KFile [''x'']) (Some (Handle KDirectory [''e'']))
     (path_name [''e'', ''y'']) = (Inl ''NotAllowedError'', sample) \<and>
   move chrome_host sample [''x''] [''e'', ''y''] =
     (Inr (), Dir [(''a'', Dir [(''f'', File [1, 2] 5), (''d'', Dir [(''g'', File [3] 7)])]),
                   (''e'', Dir [(''y'', File [9] 1000)])]) \<and>
   bytes chrome_host sample [''x''] = Inr (Some [9]) \<and>
   bytes chrome_host
     (Dir [(''a'', Dir [(''f'', File [1, 2] 5), (''d'', Dir [(''g'', File [3] 7)])]),
           (''e'', Dir [(''y'', File [9] 1000)])]) [''e'', ''y''] = Inr (Some [9]) \<and>
   \<not> isFile chrome_host
     (Dir [(''a'', Dir [(''f'', File [1, 2] 5), (''d'', Dir [(''g'', File [3] 7)])]),
           (''e'', Dir [(''y'', File [9] 1000)])]) [''x'']"
proof -
  have a: "isFile chrome_host sample [''x'']" by code_simp
  have b: "getDetails chrome_host sample (butlast [''e'', ''y''])
     \<lparr>returnParent = False, create = True, kind_wanted = Some KDirectory\<rparr>
     = (Some (Handle KDirectory [''e'']), sample)" by code_simp
  have c: "move_native chrome_host sample (Handle KFile [''x'']) (Some (Handle KDirectory [''e'']))
     (path_name [''e'', ''y'']) = (Inl ''NotAllowedError'', sample)" by code_simp
  have d: "move chrome_host sample [''x''] [''e'', ''y''] =
     (Inr (), Dir [(''a'', Dir [(''f'', File [1, 2] 5), (''d'', Dir [(''g'', File [3] 7)])]),
                   (''e'', Dir [(''y'', File [9] 1000)])])" by code_simp
  have s: "bytes chrome_host sample [''x''] = Inr (Some [9])" by code_simp
  from move_fallback[OF quiet_chrome_host a b c] d s
  show ?thesis using a b c quiet_chrome_host by auto
qed

text \<open>
  The claim as stated, for every source and destination, fails where they are the same
  path: the fallback copies the file onto itself and then deletes it. It completes, and
  the destination does not hold the source's content: the file is lost.
\<close>

theorem move_onto_itself_counterexample:
  "isFile chrome_host sample [''a'', ''f''] \<and>
   move chrome_host sample [''a'', ''f''] [''a'', ''f''] =
     (Inr (), Dir [(''a'', Dir [(''d'', Dir [(''g'', File [3] 7)])]),
                   (''x'', File [9] 3), (''e'', Dir [])]) \<and>
   bytes chrome_host
     (Dir [(''a'', Dir [(''d'', Dir [(''g'', File [3] 7)])]),
           (''x'', File [9] 3), (''e'', Dir [])]) [''a'', ''f''] = Inr None"
  by code_simp

section \<open>The time of the last modification\<close>



lemma size_entry: "e \<in> set cs \<Longrightarrow> size (snd e) < size (Dir cs)"
  by (induction cs) auto






section \<open>Walking a tree\<close>

text \<open>
  \<open>beside d t t'\<close>: whatever happened between \<open>t\<close> and \<open>t'\<close> happened at \<open>d\<close> or below
  it. A path that is neither a prefix of \<open>d\<close> nor has \<open>d\<close> as a prefix resolves as
  before, and directories are still directories.
\<close>

definition beside :: "path \<Rightarrow> node \<Rightarrow> node \<Rightarrow> bool" where
  "beside d t t' \<longleftrightarrow>
     (\<forall>r. \<not> prefix r d \<and> \<not> prefix d r \<longrightarrow> lookup t' r = lookup t r) \<and>
     (\<forall>r. is_dir (lookup t r) \<longrightarrow> is_dir (lookup t' r))"

lemma beside_refl: "beside d t t"
  by (simp add: beside_def)

lemma beside_trans: "beside d t t' \<Longrightarrow> beside d t' t'' \<Longrightarrow> beside d t t''"
  by (simp add: beside_def)

lemma beside_shorter: "beside (d @ s) t t' \<Longrightarrow> beside d t t'"
  unfolding beside_def
  by (metis prefix_order.trans prefixI prefix_append)

lemma extends_beside: "extends d t t' \<Longrightarrow> beside d t t'"
  by (simp add: extends_def beside_def)

lemma for_each_Inr_invariant:
  assumes "for_each body es t = Some (Inr (), t')"
    and "P [] t"
    and "\<And>ds e s s'. P ds s \<Longrightarrow> e \<in> set es \<Longrightarrow> body e s = Some (Inr (), s') \<Longrightarrow> P (ds @ [e]) s'"
  shows "P es t'"
  using assms
proof (induction es arbitrary: t P)
  case Nil
  then show ?case by simp
next
  case (Cons e es)
  from Cons.prems(1) obtain s where b: "body e t = Some (Inr (), s)"
    and r: "for_each body es s = Some (Inr (), t')"
    by (auto split: option.splits sum.splits prod.splits)
  have "P [e] s" using Cons.prems(3)[OF Cons.prems(2) _ b] by simp
  have step: "P (e # ds @ [e']) s2"
    if "P (e # ds) s1" "e' \<in> set es" "body e' s1 = Some (Inr (), s2)" for ds e' s1 s2
    using Cons.prems(3)[of "e # ds" s1 e' s2] that by simp
  show ?case
    using Cons.IH[OF r, of "\<lambda>ds. P (e # ds)"] \<open>P [e] s\<close> step by simp
qed

lemma for_each_terminates:
  assumes "I t"
    and "\<And>e s. e \<in> set es \<Longrightarrow> I s \<Longrightarrow> \<exists>res s'. body e s = Some (res, s') \<and> (res = Inr () \<longrightarrow> I s')"
  shows "\<exists>res t'. for_each body es t = Some (res, t') \<and> (res = Inr () \<longrightarrow> I t')"
  using assms
proof (induction es arbitrary: t)
  case Nil
  then show ?case by simp
next
  case (Cons e es)
  from Cons.prems(2)[of e t] Cons.prems(1)
  obtain res s where b: "body e t = Some (res, s)" "res = Inr () \<longrightarrow> I s" by auto
  show ?case
  proof (cases res)
    case (Inl er)
    then show ?thesis using b by simp
  next
    case (Inr u)
    then have "I s" using b by simp
    from Cons.IH[OF this] Cons.prems(2) show ?thesis using b Inr by simp
  qed
qed

lemma createDirectory_loop_extends:
  "createDirectory_loop h t dh steps = (res, t') \<Longrightarrow> extends (hpath dh @ steps) t t'"
proof (induction steps arbitrary: t dh)
  case Nil
  then show ?case by (simp add: extends_refl)
next
  case (Cons name steps)
  obtain r1 t1 where g: "getDirectoryHandle h t dh name True = (r1, t1)" by force
  have e1: "extends (hpath dh @ name # steps) t t1"
    using getDirectoryHandle_extends[OF g] by (rule extends_longer) simp
  show ?case
  proof (cases r1)
    case (Inl f)
    with Cons.prems g e1 show ?thesis by simp
  next
    case (Inr dh')
    with Cons.prems g have w: "createDirectory_loop h t1 dh' steps = (res, t')" by simp
    from g Inr have "hpath dh' = hpath dh @ [name]" using getDirectoryHandle_Inr by fastforce
    with Cons.IH[OF w] have "extends (hpath dh @ name # steps) t1 t'" by simp
    with e1 show ?thesis by (rule extends_trans)
  qed
qed


lemma createDirectory_extends:
  "createDirectory h t d = (res, t') \<Longrightarrow> extends d t t'"
  using createDirectory_loop_extends[of h t workspaceId d res t']
  by (simp add: createDirectory_def workspaceId_def)


lemma isDirectory_resolve:
  assumes "quiet h" "p \<noteq> [''root'']" "isDirectory h t p"
  obtains cs where "lookup t p = Some (Dir cs)" "p \<noteq> []" "[] \<notin> set p"
  using assms
  by (auto simp: isDirectory_quiet resolve_def split: if_splits elim!: is_dirE)



section \<open>Copying a tree\<close>

lemma apart_below:
  assumes "\<not> prefix S D" "\<not> prefix D S"
  shows "\<not> prefix (S @ r) D" "\<not> prefix D (S @ r)"
proof -
  show "\<not> prefix (S @ r) D" using assms(1) by (meson prefix_order.trans prefixI)
  show "\<not> prefix D (S @ r)"
  proof
    assume "prefix D (S @ r)"
    moreover have "prefix S (S @ r)" by simp
    ultimately have "prefix D S \<or> prefix S D" by (rule prefix_same_cases)
    with assms show False by simp
  qed
qed

lemma children_apart:
  assumes "\<not> prefix S D" "\<not> prefix D S"
  shows "\<not> prefix (S @ [x]) (D @ [y])" "\<not> prefix (D @ [y]) (S @ [x])"
  using apart_below[OF assms, of "[x]"] apart_below[OF assms(2,1), of "[y]"] assms by auto

lemma siblings_apart:
  assumes "x \<noteq> y"
  shows "\<not> prefix (D @ y # r) (D @ [x])" "\<not> prefix (D @ [x]) (D @ y # r)"
  using assms by auto

lemma copyAll_beside:
  assumes q: "quiet h"
  shows "copyAll n h t S D = Some (Inr (), t') \<Longrightarrow> beside D t t'"
proof (induction n arbitrary: t S D t')
  case 0
  then show ?case by simp
next
  case (Suc n)
  show ?case
  proof (cases "isFile h t S")
    case True
    with Suc.prems have "copy h t S D = (Inr (), t')" by simp
    from copy_success[OF q this] show ?thesis by (auto simp: beside_def)
  next
    case False
    with Suc.prems have d: "isDirectory h t S" by (auto split: if_splits)
    obtain r1 t1 where c: "createDirectory h t D = (r1, t1)" by force
    with Suc.prems False d have r1: "r1 = Inr ()" by (cases r1) auto
    have b1: "beside D t t1" using createDirectory_extends[OF c] by (rule extends_beside)
    from Suc.prems False d c r1 obtain es where
      fe: "for_each
             (\<lambda>e s. if entry_isDirectory e
                then copyAll n h s (S @ [entry_name e]) (D @ [entry_name e])
                else Some (copy h s (S @ [entry_name e]) (D @ [entry_name e])))
             es t1 = Some (Inr (), t')"
      by (auto split: sum.splits)
    have "beside D t1 t'"
    proof (rule for_each_Inr_invariant[OF fe, of "\<lambda>ds s. beside D t1 s"])
      show "beside D t1 t1" by (rule beside_refl)
    next
      fix ds :: "entry list" and e :: entry and s s' :: node
      assume P: "beside D t1 s"
        and b: "(if entry_isDirectory e
                then copyAll n h s (S @ [entry_name e]) (D @ [entry_name e])
                else Some (copy h s (S @ [entry_name e]) (D @ [entry_name e]))) = Some (Inr (), s')"
      have "beside (D @ [entry_name e]) s s'"
      proof (cases "entry_isDirectory e")
        case True
        with b show ?thesis using Suc.IH by simp
      next
        case False
        with b have "copy h s (S @ [entry_name e]) (D @ [entry_name e]) = (Inr (), s')" by simp
        from copy_success[OF q this] show ?thesis by (auto simp: beside_def)
      qed
      then have "beside D s s'" by (rule beside_shorter)
      with P show "beside D t1 s'" by (rule beside_trans)
    qed
    with b1 show ?thesis by (rule beside_trans)
  qed
qed






lemma isDirectory_root: "isDirectory h t [''root'']"
  by (simp add: isDirectory_def getDetails_def workspaceId_def)






section \<open>Termination of the recursive copy\<close>

lemma lookup_size: "lookup t p = Some n \<Longrightarrow> length p + size n \<le> size t"
proof (induction p arbitrary: t)
  case Nil
  then show ?case by simp
next
  case (Cons x p)
  then obtain cs c where t: "t = Dir cs" and c: "map_of cs x = Some c" and l: "lookup c p = Some n"
    by (cases t) (auto split: option.splits)
  from c have "(x, c) \<in> set cs" by (rule map_of_SomeD)
  from size_entry[OF this] have "size c < size (Dir cs)" by simp
  with Cons.IH[OF l] show ?case by (simp add: t)
qed

text \<open>\<open>depth_le H t\<close>: no path longer than \<open>H\<close> resolves in the store \<open>t\<close>.\<close>

definition depth_le :: "nat \<Rightarrow> node \<Rightarrow> bool" where
  "depth_le H t \<longleftrightarrow> (\<forall>p. lookup t p \<noteq> None \<longrightarrow> length p \<le> H)"

lemma depth_le_size: "depth_le (size t) t"
  unfolding depth_le_def using lookup_size by fastforce

lemma extends_depth:
  assumes "extends d t t'" "depth_le H t" "length d \<le> H"
  shows "depth_le H t'"
  unfolding depth_le_def
proof (intro allI impI)
  fix p assume p: "lookup t' p \<noteq> None"
  show "length p \<le> H"
  proof (cases "prefix p d")
    case True
    then have "length p \<le> length d" by (rule prefix_length_le)
    with assms(3) show ?thesis by simp
  next
    case False
    with assms(1) p have "lookup t p \<noteq> None" by (simp add: extends_def)
    with assms(2) show ?thesis by (simp add: depth_le_def)
  qed
qed

lemma rewrite_file_depth:
  assumes f: "lookup t d = Some (File b0 m0)" and H: "depth_le H t"
  shows "depth_le H (modify d (\<lambda>c. File b m) t)"
  unfolding depth_le_def
proof (intro allI impI)
  fix p assume p: "lookup (modify d (\<lambda>c. File b m) t) p \<noteq> None"
  have "lookup t p \<noteq> None"
  proof (cases "prefix d p")
    case True
    then obtain s where s: "p = d @ s" by (auto simp: prefix_def)
    with p f have "s = []" by (cases s) (auto simp: lookup_modify_below)
    with s f show ?thesis by simp
  next
    case False
    show ?thesis
    proof (cases "prefix p d")
      case True
      then obtain s where "d = p @ s" by (auto simp: prefix_def)
      with p show ?thesis by (auto simp: lookup_modify_above)
    next
      case F2: False
      with False p show ?thesis by (simp add: lookup_modify_apart)
    qed
  qed
  with H show "length p \<le> H" by (simp add: depth_le_def)
qed

lemma write_sink_depth:
  "write_sink h t dh b = (res, t') \<Longrightarrow> depth_le H t \<Longrightarrow> depth_le H t'"
  by (auto simp: write_sink_def rewrite_file_depth split: if_splits option.splits node.splits)

lemma copy_depth:
  assumes c: "copy h t S D = (res, t')" and H: "depth_le H t" and len: "length D \<le> length S"
  shows "depth_le H t'"
proof (cases "fst (getDetails h t S defaults)")
  case None
  with c H show ?thesis by (simp add: copy_def)
next
  case (Some fh)
  show ?thesis
  proof (cases "kind fh = KFile \<and> \<not> isDirectory h t D")
    case False
    with c H Some show ?thesis by (auto simp: copy_def split: if_splits)
  next
    case True
    then have nrS: "S \<noteq> [''root'']" and nrD: "D \<noteq> [''root'']"
      using Some isDirectory_root by (auto simp: getDetails_def workspaceId_def)
    obtain r0 t0 where g0: "getDetails h t S defaults = (r0, t0)" by force
    with Some have w0: "walk h t workspaceId S False None = (Some fh, t0)"
      using nrS by (simp add: getDetails_def defaults_def)
    have "t0 = t" using walk_nocreate[of h t workspaceId S None] w0 by simp
    with walk_Some[OF w0] True have "is_file (lookup t S)"
      by (auto simp: workspaceId_def)
    then have "length S \<le> H" using H by (auto simp: depth_le_def elim!: is_fileE)
    let ?o = "\<lparr>returnParent = False, create = True, kind_wanted = Some KFile\<rparr>"
    obtain th t1 where g: "getDetails h t D ?o = (th, t1)" by force
    then have "walk h t workspaceId D True (Some KFile) = (th, t1)"
      using nrD by (simp add: getDetails_def)
    from walk_extends[OF this] have "extends D t t1" by (simp add: workspaceId_def)
    then have H1: "depth_le H t1" using H len \<open>length S \<le> H\<close> by (auto elim: extends_depth)
    show ?thesis
      using c Some True g H1 write_sink_depth
      by (auto simp: copy_def split: sum.splits option.splits)
  qed
qed

lemma copyAll_terminates_shallow:
  assumes q: "quiet h"
  shows "depth_le H t \<Longrightarrow> length D \<le> length S \<Longrightarrow> S \<noteq> [''root''] \<Longrightarrow> 0 < n \<Longrightarrow>
         H < n + length S \<Longrightarrow>
         \<exists>res t'. copyAll n h t S D = Some (res, t') \<and> (res = Inr () \<longrightarrow> depth_le H t')"
proof (induction n arbitrary: t S D)
  case 0
  then show ?case by simp
next
  case (Suc n)
  note H = Suc.prems(1) and len = Suc.prems(2) and nr = Suc.prems(3)
  show ?case
  proof (cases "isFile h t S")
    case True
    obtain res t' where c: "copy h t S D = (res, t')" by force
    with copy_depth[OF c H len] True show ?thesis by simp
  next
    case nf: False
    show ?thesis
    proof (cases "isDirectory h t S")
      case False
      with nf H show ?thesis by simp
    next
      case d: True
      from isDirectory_resolve[OF q nr d] obtain cs where
        S: "lookup t S = Some (Dir cs)" "S \<noteq> []" "[] \<notin> set S" by blast
      then have lS: "length S \<le> H" using H by (simp add: depth_le_def)
      obtain r1 t1 where c: "createDirectory h t D = (r1, t1)" by force
      note e1 = createDirectory_extends[OF c]
      have H1: "depth_le H t1" using extends_depth[OF e1 H] len lS by simp
      show ?thesis
      proof (cases r1)
        case (Inl er)
        with nf d c show ?thesis by simp
      next
        case (Inr u)
        have "is_dir (lookup t1 S)" using e1 S by (simp add: extends_def)
        then obtain cs1 where l1: "lookup t1 S = Some (Dir cs1)" by (rule is_dirE)
        then have S1: "resolve t1 S = Some (Dir cs1)" using S by (simp add: resolve_def)
        let ?mk = "\<lambda>(x, c). \<lparr>entry_name = x, entry_isDirectory = is_dir (Some c),
                          entry_isFile = is_file (Some c), entry_isSymlink = False\<rparr>"
        let ?body = "\<lambda>e s. if entry_isDirectory e
                then copyAll n h s (S @ [entry_name e]) (D @ [entry_name e])
                else Some (copy h s (S @ [entry_name e]) (D @ [entry_name e]))"
        have l: "list h t1 S = Inr (map ?mk cs1)" by (simp add: list_quiet[OF q nr] S1)
        have step: "\<exists>res s'. ?body e s = Some (res, s') \<and> (res = Inr () \<longrightarrow> depth_le H s')"
          if e: "e \<in> set (map ?mk cs1)" and Hs: "depth_le H s" for e :: entry and s :: node
        proof (cases "entry_isDirectory e")
          case False
          obtain res s' where c: "copy h s (S @ [entry_name e]) (D @ [entry_name e]) = (res, s')"
            by force
          have "depth_le H s'" using copy_depth[OF c Hs] len by simp
          with False c show ?thesis by simp
        next
          case True
          from e have "cs1 \<noteq> []" by auto
          then obtain x1 c1 rest where cs1: "cs1 = (x1, c1) # rest" by (cases cs1) auto
          then have "lookup t1 (S @ [x1]) = Some c1"
            using lookup_child[OF l1, of x1] by simp
          then have "length (S @ [x1]) \<le> H" using H1 unfolding depth_le_def by blast
          then have n: "0 < n" "H < n + length (S @ [entry_name e])"
            using Suc.prems(5) by auto
          have nr': "S @ [entry_name e] \<noteq> [''root'']" using S(2) by (cases S) auto
          have len': "length (D @ [entry_name e]) \<le> length (S @ [entry_name e])"
            using len by simp
          from Suc.IH[OF Hs len' nr' n] True show ?thesis by simp
        qed
        from for_each_terminates[of "depth_le H" t1 "map ?mk cs1" ?body, OF H1 step]
        obtain res t' where "for_each ?body (map ?mk cs1) t1 = Some (res, t')"
          "res = Inr () \<longrightarrow> depth_le H t'" by blast
        then show ?thesis using nf d c Inr l by simp
      qed
    qed
  qed
qed

lemma copyAll_terminates_apart:
  assumes q: "quiet h"
  shows "\<not> prefix S D \<Longrightarrow> \<not> prefix D S \<Longrightarrow> S \<noteq> [''root''] \<Longrightarrow>
         (\<forall>nd. lookup t S = Some nd \<longrightarrow> size nd < n) \<Longrightarrow> 0 < n \<Longrightarrow>
         \<exists>res t'. copyAll n h t S D = Some (res, t')"
proof (induction n arbitrary: t S D)
  case 0
  then show ?case by simp
next
  case (Suc n)
  note ap = Suc.prems(1,2) and nr = Suc.prems(3)
  show ?case
  proof (cases "isFile h t S \<or> \<not> isDirectory h t S")
    case True
    then show ?thesis by (cases "copy h t S D") auto
  next
    case False
    then have nf: "\<not> isFile h t S" and d: "isDirectory h t S" by auto
    from isDirectory_resolve[OF q nr d] obtain cs where
      S: "lookup t S = Some (Dir cs)" "S \<noteq> []" "[] \<notin> set S" by blast
    with Suc.prems(4) have sz: "size (Dir cs) < Suc n" by simp
    obtain r1 t1 where c: "createDirectory h t D = (r1, t1)" by force
    note e1 = createDirectory_extends[OF c]
    show ?thesis
    proof (cases r1)
      case (Inl er)
      with nf d c show ?thesis by simp
    next
      case (Inr u)
      have src1: "lookup t1 (S @ r) = lookup t (S @ r)" for r
        using e1 apart_below(1)[OF ap, of r] by (simp add: extends_def)
      then have S1: "resolve t1 S = Some (Dir cs)"
        using S src1[of "[]"] by (simp add: resolve_def)
      let ?mk = "\<lambda>(x, c). \<lparr>entry_name = x, entry_isDirectory = is_dir (Some c),
                        entry_isFile = is_file (Some c), entry_isSymlink = False\<rparr>"
      let ?body = "\<lambda>e s. if entry_isDirectory e
              then copyAll n h s (S @ [entry_name e]) (D @ [entry_name e])
              else Some (copy h s (S @ [entry_name e]) (D @ [entry_name e]))"
      have l: "list h t1 S = Inr (map ?mk cs)" by (simp add: list_quiet[OF q nr] S1)
      have step: "\<exists>res s'. ?body e s = Some (res, s') \<and> (res = Inr () \<longrightarrow> beside D t1 s')"
        if e: "e \<in> set (map ?mk cs)" and I: "beside D t1 s" for e :: entry and s :: node
      proof -
        let ?x = "entry_name e"
        have src: "lookup s (S @ r) = lookup t (S @ r)" for r
          using I apart_below[OF ap, of r] src1[of r] by (simp add: beside_def)
        have "\<exists>res s'. ?body e s = Some (res, s')"
        proof (cases "entry_isDirectory e")
          case False
          then show ?thesis by (cases "copy h s (S @ [?x]) (D @ [?x])") auto
        next
          case True
          from e have "cs \<noteq> []" by auto
          then obtain e0 rest where "cs = e0 # rest" by (cases cs) auto
          then have "0 < n" using sz by simp
          moreover have "\<forall>nd. lookup s (S @ [?x]) = Some nd \<longrightarrow> size nd < n"
          proof (intro allI impI)
            fix nd assume "lookup s (S @ [?x]) = Some nd"
            then have "map_of cs ?x = Some nd" using src[of "[?x]"] lookup_child[OF S(1)] by simp
            then have "(?x, nd) \<in> set cs" by (rule map_of_SomeD)
            from size_entry[OF this] sz show "size nd < n" by simp
          qed
          moreover have "S @ [?x] \<noteq> [''root'']" using S(2) by (cases S) auto
          ultimately show ?thesis
            using Suc.IH[OF children_apart[OF ap, of ?x ?x]] True by simp
        qed
        then obtain res s' where b: "?body e s = Some (res, s')" by blast
        have "beside D t1 s'" if "res = Inr ()"
        proof -
          have "beside (D @ [?x]) s s'"
          proof (cases "entry_isDirectory e")
            case True
            with b that show ?thesis using copyAll_beside[OF q] by simp
          next
            case False
            with b that have "copy h s (S @ [?x]) (D @ [?x]) = (Inr (), s')" by simp
            from copy_success[OF q this] show ?thesis by (auto simp: beside_def)
          qed
          then have "beside D s s'" by (rule beside_shorter)
          with I show ?thesis by (rule beside_trans)
        qed
        with b show ?thesis by blast
      qed
      from for_each_terminates[of "beside D t1" t1 "map ?mk cs" ?body, OF beside_refl step]
      obtain res t' where "for_each ?body (map ?mk cs) t1 = Some (res, t')" by blast
      then show ?thesis using nf d c Inr l by simp
    qed
  qed
qed

lemma for_each_mono:
  assumes "\<And>e s r. body e s = Some r \<Longrightarrow> body' e s = Some r"
  shows "for_each body es t = Some r \<Longrightarrow> for_each body' es t = Some r"
proof (induction es arbitrary: t)
  case Nil
  then show ?case by simp
next
  case (Cons e es)
  from Cons.prems obtain res s where b: "body e t = Some (res, s)"
    by (cases "body e t") auto
  then have b': "body' e t = Some (res, s)" by (rule assms)
  show ?case
  proof (cases res)
    case (Inl er)
    with Cons.prems b b' show ?thesis by auto
  next
    case (Inr u)
    with Cons.prems b have "for_each body es s = Some r" by simp
    from Cons.IH[OF this] show ?thesis using b' Inr by simp
  qed
qed

text \<open>A deeper bound does not change a result.\<close>

lemma copyAll_more_fuel:
  "copyAll n h t S D = Some r \<Longrightarrow> copyAll (Suc n) h t S D = Some r"
proof (induction n arbitrary: t S D r)
  case 0
  then show ?case by simp
next
  case (Suc n)
  let ?body = "\<lambda>k e s. if entry_isDirectory e
                then copyAll k h s (S @ [entry_name e]) (D @ [entry_name e])
                else Some (copy h s (S @ [entry_name e]) (D @ [entry_name e]))"
  have m: "for_each (?body (Suc n)) es t1 = Some r" if "for_each (?body n) es t1 = Some r" for es t1
    using that
  proof (rule for_each_mono[rotated])
    fix e :: entry and s :: node and r'
    assume "?body n e s = Some r'"
    then show "?body (Suc n) e s = Some r'"
      using Suc.IH by (cases "entry_isDirectory e") simp_all
  qed
  show ?case
  proof (cases "isFile h t S \<or> \<not> isDirectory h t S")
    case True
    with Suc.prems show ?thesis by auto
  next
    case False
    obtain r1 t1 where c: "createDirectory h t D = (r1, t1)" by force
    show ?thesis
    proof (cases r1)
      case (Inl er)
      with Suc.prems False c show ?thesis by auto
    next
      case (Inr u)
      show ?thesis
      proof (cases "list h t1 S")
        case (Inl er)
        with Suc.prems False c Inr show ?thesis by auto
      next
        case es: (Inr es)
        with Suc.prems False c Inr have "for_each (?body n) es t1 = Some r" by simp
        from m[OF this] show ?thesis
          using False c Inr es copyAll.simps(2)[of "Suc n" h t S D] by simp
      qed
    qed
  qed
qed

lemma copyAll_fuel_le:
  "copyAll n h t S D = Some r \<Longrightarrow> n \<le> k \<Longrightarrow> copyAll k h t S D = Some r"
  by (induction k) (auto simp: le_Suc_eq copyAll_more_fuel simp del: copyAll.simps)

text \<open>
  Claim C10. When the destination is neither the source directory nor a path inside it,
  \<^verbatim>\<open>copyAll(source, destination)\<close> terminates, whatever the (finite) store holds: from
  the depth bound \<open>size t + 1\<close> on, the bounded recursion returns, and always the same
  result. The source is a path other than \<^verbatim>\<open>"root"\<close>, which stands for the root of the
  store: every destination is inside that. The store is assumed to raise no fault of
  its own. Two lemmas above carry the proof: beside the destination the source is not
  touched, so that every call descends into a smaller subtree of the source
  (\<open>copyAll_terminates_apart\<close>); and when the destination is an ancestor of the source
  the store does not get deeper while the source does (\<open>copyAll_terminates_shallow\<close>).
\<close>

theorem copyAll_terminates:
  "quiet h \<Longrightarrow> source \<noteq> [''root''] \<Longrightarrow> \<not> prefix source destination \<Longrightarrow>
     (\<exists>res t'. \<forall>n > size t. copyAll n h t source destination = Some (res, t'))"
proof -
  assume q: "quiet h" and nr: "source \<noteq> [''root'']" and np: "\<not> prefix source destination"
  have "\<exists>res t'. copyAll (Suc (size t)) h t source destination = Some (res, t')"
  proof (cases "prefix destination source")
    case True
    then have len: "length destination \<le> length source" by (rule prefix_length_le)
    have "\<exists>res t'. copyAll (Suc (size t)) h t source destination = Some (res, t')
            \<and> (res = Inr () \<longrightarrow> depth_le (size t) t')"
      by (rule copyAll_terminates_shallow[OF q depth_le_size len nr]) simp_all
    then show ?thesis by blast
  next
    case False
    have sz: "\<forall>nd. lookup t source = Some nd \<longrightarrow> size nd < Suc (size t)"
      using lookup_size[of t source] by fastforce
    show ?thesis
      by (rule copyAll_terminates_apart[OF q np False nr sz]) simp
  qed
  then obtain res t' where "copyAll (Suc (size t)) h t source destination = Some (res, t')"
    by blast
  then have "\<forall>n > size t. copyAll n h t source destination = Some (res, t')"
    using copyAll_fuel_le by (metis Suc_leI)
  then show ?thesis by blast
qed

theorem copyAll_terminates_witness:
  "quiet quiet_host \<and> [''a''] \<noteq> [''root''] \<and> \<not> prefix [''a''] [''b'', ''c''] \<and>
   (\<exists>res t'. \<forall>n > size sample. copyAll n quiet_host sample [''a''] [''b'', ''c''] = Some (res, t')) \<and>
   \<not> prefix [''a'', ''d''] [''a''] \<and>
   (\<exists>res t'. \<forall>n > size sample. copyAll n quiet_host sample [''a'', ''d''] [''a''] = Some (res, t'))"
  using copyAll_terminates[OF quiet_quiet_host, of "[''a'']" "[''b'', ''c'']" sample]
    copyAll_terminates[OF quiet_quiet_host, of "[''a'', ''d'']" "[''a'']" sample]
    quiet_quiet_host
  by simp

text \<open>
  Nothing in \<^verbatim>\<open>copyAll\<close> keeps the destination out of the source. With the destination
  inside the source the call does not end: in the store with the one empty directory
  \<open>a\<close>, \<^verbatim>\<open>copyAll("a", "a/b")\<close> creates \<open>a/b\<close>, finds it when it lists \<open>a\<close>, and goes on to
  copy \<open>a/b\<close> to \<open>a/b/b\<close>, and so on. \<open>chain k\<close> is the store after \<open>k\<close> such steps.
\<close>

fun chain_below :: "nat \<Rightarrow> node" where
  "chain_below 0 = Dir []"
| "chain_below (Suc k) = Dir [(''b'', chain_below k)]"

definition chain :: "nat \<Rightarrow> node" where
  "chain k = Dir [(''a'', chain_below k)]"

lemma lookup_chain_below:
  "j \<le> k \<Longrightarrow> lookup (chain_below k) (replicate j ''b'') = Some (chain_below (k - j))"
proof (induction k arbitrary: j)
  case 0
  then show ?case by simp
next
  case (Suc k)
  then show ?case by (cases j) auto
qed

lemma lookup_chain:
  "j \<le> k \<Longrightarrow> lookup (chain k) (''a'' # replicate j ''b'') = Some (chain_below (k - j))"
  by (simp add: chain_def lookup_chain_below)

lemma grow_chain_below:
  "modify (replicate k ''b'') (put_child ''b'' (Dir [])) (chain_below k) = chain_below (Suc k)"
  by (induction k) simp_all

lemma grow_chain:
  "modify (''a'' # replicate k ''b'') (put_child ''b'' (Dir [])) (chain k) = chain (Suc k)"
  by (simp add: chain_def grow_chain_below del: chain_below.simps)

lemma createDirectory_loop_chain:
  assumes q: "quiet h"
  shows "j \<le> k \<Longrightarrow>
     createDirectory_loop h (chain k) (Handle KDirectory (''a'' # replicate j ''b''))
       (replicate (Suc k - j) ''b'') = (Inr (), chain (Suc k))"
proof (induction "k - j" arbitrary: j)
  case 0
  then have j: "j = k" by simp
  have d: "is_dir (lookup (chain k) (''a'' # replicate k ''b''))"
    by (simp add: lookup_chain)
  have a: "lookup (chain k) ((''a'' # replicate k ''b'') @ [''b'']) = None"
    using lookup_chain[of k k] lookup_append[of "chain k" "''a'' # replicate k ''b''" "[''b'']"]
    by simp
  show ?case
    using getDirectoryHandle_quiet[OF q d, of "''b''" True] a
    by (simp add: j grow_chain del: lookup.simps modify.simps)
next
  case (Suc m)
  then have lt: "j < k" and m: "m = k - Suc j" by auto
  let ?p = "''a'' # replicate j ''b''"
  have d: "is_dir (lookup (chain k) ?p)"
    using lt by (cases "k - j") (simp_all add: lookup_chain)
  have eq: "?p @ [''b''] = ''a'' # replicate (Suc j) ''b''"
    by (simp add: replicate_append_same)
  obtain cs where "chain_below (k - Suc j) = Dir cs" by (cases "k - Suc j") auto
  then have a: "lookup (chain k) (?p @ [''b'']) = Some (Dir cs)"
    unfolding eq using lookup_chain[of "Suc j" k] lt by simp
  have g: "getDirectoryHandle h (chain k) (Handle KDirectory ?p) ''b'' True
           = (Inr (Handle KDirectory (''a'' # replicate (Suc j) ''b'')), chain k)"
  proof -
    have nb: "''b'' \<noteq> []" by simp
    show ?thesis
      by (simp only: getDirectoryHandle_quiet[OF q d nb, of True] a a[unfolded eq]
          option.case node.case eq)
  qed
  have r: "replicate (Suc k - j) ''b'' = ''b'' # replicate (Suc k - Suc j) ''b''"
    using lt by (simp add: Suc_diff_le)
  have ih: "createDirectory_loop h (chain k) (Handle KDirectory (''a'' # replicate (Suc j) ''b''))
       (replicate (Suc k - Suc j) ''b'') = (Inr (), chain (Suc k))"
    using Suc.hyps(1)[OF m] lt by simp
  show ?case
    unfolding r createDirectory_loop.simps g using ih by simp
qed

lemma createDirectory_chain:
  assumes q: "quiet h"
  shows "createDirectory h (chain k) (''a'' # replicate (Suc k) ''b'') = (Inr (), chain (Suc k))"
proof -
  have d: "is_dir (lookup (chain k) [])" by (simp add: chain_def)
  obtain cs where cs: "chain_below k = Dir cs" by (cases k) auto
  then have a: "lookup (chain k) ([] @ [''a'']) = Some (Dir cs)" by (simp add: chain_def)
  have l: "createDirectory_loop h (chain k) (Handle KDirectory [''a''])
             (replicate (Suc k) ''b'') = (Inr (), chain (Suc k))"
    using createDirectory_loop_chain[OF q, of 0 k] by simp
  show ?thesis
    using getDirectoryHandle_quiet[OF q d, of "''a''" True] a l
    by (simp add: createDirectory_def workspaceId_def del: lookup.simps replicate.simps)
qed

lemma copyAll_into_itself_never_returns:
  assumes q: "quiet h"
  shows "copyAll n h (chain k) (''a'' # replicate k ''b'') (''a'' # replicate (Suc k) ''b'') = None"
proof (induction n arbitrary: k)
  case 0
  show ?case by simp
next
  case (Suc n)
  let ?S = "''a'' # replicate k ''b''"
  have nr: "?S \<noteq> [''root'']" by simp
  have v: "[] \<notin> set ?S" by auto
  have r0: "resolve (chain k) ?S = Some (Dir [])"
    using lookup_chain[of k k] v by (simp add: resolve_def)
  have r1: "resolve (chain (Suc k)) ?S = Some (Dir [(''b'', Dir [])])"
    using lookup_chain[of k "Suc k"] v by (simp add: resolve_def)
  have f: "\<not> isFile h (chain k) ?S" and d: "isDirectory h (chain k) ?S"
    by (simp_all add: isFile_quiet[OF q nr] isDirectory_quiet[OF q nr] r0)
  have l: "list h (chain (Suc k)) ?S =
      Inr [\<lparr>entry_name = ''b'', entry_isDirectory = True, entry_isFile = False,
             entry_isSymlink = False\<rparr>]"
    by (simp add: list_quiet[OF q nr] r1)
  have "?S @ [''b''] = ''a'' # replicate (Suc k) ''b''"
    "(''a'' # replicate (Suc k) ''b'') @ [''b''] = ''a'' # replicate (Suc (Suc k)) ''b''"
    by (simp_all add: replicate_append_same)
  then show ?case
    using f d createDirectory_chain[OF q, of k] l Suc.IH[of "Suc k"]
    by (simp del: replicate.simps)
qed

section \<open>Moving a tree\<close>






















end
